theory Spec2Isabelle
  imports Complex_Main
begin

section \<open>The Number type of the host language\<close>

text \<open>
  Every numeric field of App.vue (\<open>rotation.x\<close>, \<open>camera.aspect\<close>, the window sizes) is a
  JavaScript Number, an IEEE 754 binary64 value. A finite value is kept as the rational it
  denotes; the two infinities and NaN are constructors of their own. The two zeros are one
  value here: no comparison of the component can tell them apart, and no divisor of the
  component can be a negative zero.

  Arithmetic computes the exact rational result and rounds it to the nearest binary64
  value, ties to the even significand, as the language standard prescribes.
\<close>

datatype number = NaN | NInf | Fin rat | PInf

text \<open>\<open>ilog2 n\<close> is the position of the leading bit of \<open>n\<close>.\<close>

fun ilog2 :: "nat \<Rightarrow> nat" where
  "ilog2 n = (if n < 2 then 0 else Suc (ilog2 (n div 2)))"

declare ilog2.simps [simp del]

definition clog2 :: "nat \<Rightarrow> nat" where
  "clog2 n = (if n \<le> 1 then 0 else Suc (ilog2 (n - 1)))"

text \<open>The binary exponent of a positive rational: \<open>2 powi expo a \<le> a < 2 powi (expo a + 1)\<close>.\<close>

definition expo :: "rat \<Rightarrow> int" where
  "expo a = (if 1 \<le> a then int (ilog2 (nat \<lfloor>a\<rfloor>)) else - int (clog2 (nat \<lceil>1 / a\<rceil>)))"

definition round_half_even :: "rat \<Rightarrow> int" where
  "round_half_even x =
     (if x - of_int \<lfloor>x\<rfloor> < 1 / 2 then \<lfloor>x\<rfloor>
      else if 1 / 2 < x - of_int \<lfloor>x\<rfloor> then \<lfloor>x\<rfloor> + 1
      else if even \<lfloor>x\<rfloor> then \<lfloor>x\<rfloor> else \<lfloor>x\<rfloor> + 1)"

text \<open>
  The spacing of binary64 values around a magnitude of exponent \<open>e\<close> is
  \<open>2 powi quantum e\<close>: 53 significant bits, and the subnormal spacing \<open>2 powi (- 1074)\<close> at
  the bottom of the range.
\<close>

definition quantum :: "int \<Rightarrow> int" where
  "quantum e = max (e - 52) (- 1074)"

text \<open>
  \<open>pack x e m\<close> is the value of sign \<open>x\<close> and significand \<open>m\<close> at exponent \<open>e\<close>; a magnitude
  that reaches \<open>2 powi 1024\<close> overflows to the infinity of that sign.
\<close>

definition pack :: "rat \<Rightarrow> int \<Rightarrow> int \<Rightarrow> number" where
  "pack x e m =
     (if 1024 \<le> e \<or> (e = 1023 \<and> m = 2 ^ 53) then (if 0 < x then PInf else NInf)
      else Fin (if 0 < x then of_int m * 2 powi quantum e else - (of_int m * 2 powi quantum e)))"

definition round_to :: "rat \<Rightarrow> int \<Rightarrow> number" where
  "round_to x e = pack x e (round_half_even (\<bar>x\<bar> / 2 powi quantum e))"

definition round_double :: "rat \<Rightarrow> number" where
  "round_double x = (if x = 0 then Fin 0 else round_to x (expo \<bar>x\<bar>))"

text \<open>A rational is a binary64 value when rounding leaves it alone.\<close>

definition is_double :: "rat \<Rightarrow> bool" where
  "is_double x = (round_double x = Fin x)"

fun wf_number :: "number \<Rightarrow> bool" where
  "wf_number (Fin x) = is_double x"
| "wf_number _ = True"

fun num_neg :: "number \<Rightarrow> number" where
  "num_neg NaN = NaN"
| "num_neg NInf = PInf"
| "num_neg PInf = NInf"
| "num_neg (Fin a) = Fin (- a)"

fun num_add :: "number \<Rightarrow> number \<Rightarrow> number" where
  "num_add (Fin a) (Fin b) = round_double (a + b)"
| "num_add NaN _ = NaN"
| "num_add _ NaN = NaN"
| "num_add PInf NInf = NaN"
| "num_add NInf PInf = NaN"
| "num_add PInf _ = PInf"
| "num_add _ PInf = PInf"
| "num_add NInf _ = NInf"
| "num_add _ NInf = NInf"

definition num_sub :: "number \<Rightarrow> number \<Rightarrow> number" where
  "num_sub a b = num_add a (num_neg b)"

text \<open>Division; a zero divisor is the positive zero.\<close>

fun num_div :: "number \<Rightarrow> number \<Rightarrow> number" where
  "num_div (Fin a) (Fin b) =
     (if b = 0 then (if a = 0 then NaN else if 0 < a then PInf else NInf)
      else round_double (a / b))"
| "num_div NaN _ = NaN"
| "num_div _ NaN = NaN"
| "num_div (Fin a) _ = Fin 0"
| "num_div PInf (Fin b) = (if 0 \<le> b then PInf else NInf)"
| "num_div NInf (Fin b) = (if 0 \<le> b then NInf else PInf)"
| "num_div _ _ = NaN"

text \<open>The comparisons \<open>>\<close> and \<open><=\<close> of the language: false whenever an operand is NaN.\<close>

fun num_gt :: "number \<Rightarrow> number \<Rightarrow> bool" where
  "num_gt (Fin a) (Fin b) = (b < a)"
| "num_gt NaN _ = False"
| "num_gt _ NaN = False"
| "num_gt PInf PInf = False"
| "num_gt PInf _ = True"
| "num_gt _ PInf = False"
| "num_gt NInf _ = False"
| "num_gt _ NInf = True"

fun num_le :: "number \<Rightarrow> number \<Rightarrow> bool" where
  "num_le NaN _ = False"
| "num_le _ NaN = False"
| "num_le a b = (\<not> num_gt a b)"

text \<open>A decimal literal of the source denotes the binary64 value nearest to it.\<close>

definition lit :: "rat \<Rightarrow> number" where
  "lit q = round_double q"

text \<open>\<open>Math.PI\<close> is the binary64 value nearest to \<open>\<pi>\<close>, \<open>0x400921FB54442D18\<close>.\<close>

definition Math_PI :: number where
  "Math_PI = Fin (884279719003555 / 281474976710656)"

section \<open>Scene objects\<close>

text \<open>
  Objects of the rendering library are shared and mutated through references: the loader
  callback stores a mesh of the loaded model in \<open>innerDisplay\<close>, the frame callback writes
  its rotation through that reference, and the scene graph draws the same object. So the
  objects live in a store, indexed by reference, and the scene graph holds references.
\<close>

type_synonym ref = nat

datatype kind = Mesh | AmbientLight | DirectionalLight | Other

datatype material = Single bool | Multi "bool list"

record Object3D =
  kind :: kind
  name :: string
  castShadow :: bool
  receiveShadow :: bool
  rotation_x :: number
  position :: "number \<times> number \<times> number"
  geometry :: "bool option"
  material :: "material option"

text \<open>
  The flag of a geometry or a material says whether it has been disposed; a mesh may have
  one material or an array of them.
\<close>

datatype tree = Node ref "tree list"

text \<open>\<open>Object3D.traverse\<close> calls back on the object itself, then on each child's subtree.\<close>

fun traverse :: "tree \<Rightarrow> ref list" where
  "traverse (Node r ts) = r # concat (map traverse ts)"

record Scene =
  background :: nat
  children :: "tree list"

record PerspectiveCamera =
  fov :: number
  aspect :: number
  near :: number
  far :: number
  camera_position :: "number \<times> number \<times> number"
  projection_aspect :: number

record WebGLRenderer =
  canvas :: nat
  antialias :: bool
  width :: number
  height :: number
  pixelRatio :: number
  shadowMapEnabled :: bool
  disposed :: bool
  drawCalls :: nat

record Window =
  innerWidth :: number
  innerHeight :: number
  devicePixelRatio :: number

section \<open>The component state\<close>

text \<open>
  The refs of the script block, followed by the part of the environment the component acts
  on: the object store, the window and its resize listener, the queue of requested
  animation frames, and whether the loader still owes a callback. Console output is not
  part of the state.
\<close>

record state =
  canvasRef :: "nat option"
  scene :: "Scene option"
  camera :: "PerspectiveCamera option"
  renderer :: "WebGLRenderer option"
  innerDisplay :: "ref option"
  outerDisplay :: "ref option"
  screen :: "ref option"
  animationFrameId :: "nat option"
  heap :: "ref \<Rightarrow> Object3D"
  nextRef :: ref
  window :: Window
  resizeListener :: bool
  frameQueue :: "nat list"
  lastFrameId :: nat
  loadPending :: bool

datatype error = TypeError

definition set_rotation_x :: "ref \<Rightarrow> number \<Rightarrow> state \<Rightarrow> state" where
  "set_rotation_x r v s = s\<lparr>heap := (heap s)(r := (heap s r)\<lparr>rotation_x := v\<rparr>)\<rparr>"

section \<open>initThree\<close>

definition ambientLight :: Object3D where
  "ambientLight =
     \<lparr>kind = AmbientLight, name = [], castShadow = False, receiveShadow = False,
      rotation_x = Fin 0, position = (Fin 0, Fin 0, Fin 0), geometry = None, material = None\<rparr>"

definition directionalLight :: Object3D where
  "directionalLight =
     \<lparr>kind = DirectionalLight, name = [], castShadow = True, receiveShadow = False,
      rotation_x = Fin 0, position = (Fin 5, Fin 10, Fin (15 / 2)), geometry = None,
      material = None\<rparr>"

definition plane :: Object3D where
  "plane =
     \<lparr>kind = Mesh, name = [], castShadow = False, receiveShadow = True,
      rotation_x = num_div (num_neg Math_PI) (Fin 2), position = (Fin 0, Fin (- 1), Fin 0),
      geometry = Some False, material = Some (Single False)\<rparr>"

definition new_camera :: "Window \<Rightarrow> PerspectiveCamera" where
  "new_camera w =
     \<lparr>fov = Fin 75, aspect = num_div (innerWidth w) (innerHeight w), near = lit (1 / 10),
      far = Fin 1000, camera_position = (Fin 2, Fin 2, Fin 5),
      projection_aspect = num_div (innerWidth w) (innerHeight w)\<rparr>"

definition new_renderer :: "nat \<Rightarrow> Window \<Rightarrow> WebGLRenderer" where
  "new_renderer cv w =
     \<lparr>canvas = cv, antialias = True, width = innerWidth w, height = innerHeight w,
      pixelRatio = devicePixelRatio w, shadowMapEnabled = True, disposed = False,
      drawCalls = 0\<rparr>"

text \<open>
  Lines 26 to 126. Without a canvas nothing is built. Otherwise the scene gets its two
  lights and the ground plane, the load of the model is started, and the resize listener
  is registered. The three objects are allocated at the next free references.
\<close>

definition initThree :: "state \<Rightarrow> state" where
  "initThree s =
     (case canvasRef s of
        None \<Rightarrow> s
      | Some cv \<Rightarrow>
          s\<lparr>scene := Some \<lparr>background = 0xcccccc,
                             children = [Node (nextRef s) [], Node (nextRef s + 1) [],
                                         Node (nextRef s + 2) []]\<rparr>,
            camera := Some (new_camera (window s)),
            renderer := Some (new_renderer cv (window s)),
            heap := (heap s)(nextRef s := ambientLight, nextRef s + 1 := directionalLight,
                             nextRef s + 2 := plane),
            nextRef := nextRef s + 3,
            loadPending := True,
            resizeListener := True\<rparr>)"

section \<open>handleResize\<close>

text \<open>Lines 129 to 136.\<close>

definition handleResize :: "state \<Rightarrow> state" where
  "handleResize s =
     (case camera s of
        None \<Rightarrow> s
      | Some c \<Rightarrow>
          (case renderer s of
             None \<Rightarrow> s
           | Some r \<Rightarrow>
               s\<lparr>camera :=
                    Some (c\<lparr>aspect := num_div (innerWidth (window s)) (innerHeight (window s)),
                            projection_aspect :=
                              num_div (innerWidth (window s)) (innerHeight (window s))\<rparr>),
                  renderer :=
                    Some (r\<lparr>width := innerWidth (window s), height := innerHeight (window s),
                            pixelRatio := devicePixelRatio (window s)\<rparr>)\<rparr>))"

section \<open>animate\<close>

definition rotationSpeed :: number where
  "rotationSpeed = lit (5 / 1000)"

text \<open>The clamp of line 149, \<open>-Math.PI / 2 + 0.05\<close>.\<close>

definition rotation_floor :: number where
  "rotation_floor = num_add (num_div (num_neg Math_PI) (Fin 2)) (lit (5 / 100))"

text \<open>
  \<open>requestAnimationFrame(animate)\<close>: the browser hands out the next handle and queues the
  callback under it; line 143 stores the handle.
\<close>

definition requestAnimationFrame :: "state \<Rightarrow> state" where
  "requestAnimationFrame s =
     s\<lparr>lastFrameId := lastFrameId s + 1,
       frameQueue := frameQueue s @ [lastFrameId s + 1],
       animationFrameId := Some (lastFrameId s + 1)\<rparr>"

text \<open>Lines 149 to 151: one step of the hinge, through the reference \<open>i\<close>.\<close>

definition turn :: "ref \<Rightarrow> state \<Rightarrow> state" where
  "turn i s =
     (if num_gt (rotation_x (heap s i)) rotation_floor
      then set_rotation_x i (num_sub (rotation_x (heap s i)) rotationSpeed) s
      else s)"

text \<open>Lines 154 and 155: each of the other two parts, when present, copies \<open>i\<close>'s angle.\<close>

definition sync_outer :: "ref \<Rightarrow> state \<Rightarrow> state" where
  "sync_outer i s =
     (case outerDisplay s of
        None \<Rightarrow> s
      | Some j \<Rightarrow> set_rotation_x j (rotation_x (heap s i)) s)"

definition sync_screen :: "ref \<Rightarrow> state \<Rightarrow> state" where
  "sync_screen i s =
     (case screen s of
        None \<Rightarrow> s
      | Some k \<Rightarrow> set_rotation_x k (rotation_x (heap s i)) s)"

text \<open>Lines 146 to 156.\<close>

definition attempt_rotation :: "state \<Rightarrow> state" where
  "attempt_rotation s =
     (case innerDisplay s of
        None \<Rightarrow> s
      | Some i \<Rightarrow> sync_screen i (sync_outer i (turn i s)))"

text \<open>
  Lines 162 to 164. The call \<open>renderer.value.render\<close> dereferences the renderer ref again;
  on a cleared ref that is a TypeError.
\<close>

definition render :: "state \<Rightarrow> error + state" where
  "render s =
     (if scene s \<noteq> None \<and> camera s \<noteq> None
      then (case renderer s of
              None \<Rightarrow> Inl TypeError
            | Some r \<Rightarrow> Inr (s\<lparr>renderer := Some (r\<lparr>drawCalls := drawCalls r + 1\<rparr>)\<rparr>))
      else Inr s)"

text \<open>Lines 139 to 165.\<close>

definition animate :: "state \<Rightarrow> error + state" where
  "animate s =
     (case renderer s of
        None \<Rightarrow> Inr s
      | Some _ \<Rightarrow> render (attempt_rotation (requestAnimationFrame s)))"

text \<open>\<open>frames n\<close> runs the frame callback \<open>n\<close> times in a row.\<close>

fun frames :: "nat \<Rightarrow> state \<Rightarrow> error + state" where
  "frames 0 s = Inr s"
| "frames (Suc n) s = (case animate s of Inl e \<Rightarrow> Inl e | Inr s' \<Rightarrow> frames n s')"

section \<open>The loader callbacks\<close>

text \<open>Lines 91 to 109, the callback of \<open>model.traverse\<close> at one node.\<close>

definition visit :: "ref \<Rightarrow> state \<Rightarrow> state" where
  "visit r s =
     (if kind (heap s r) = Mesh
      then (if name (heap s r) = ''laptop_inner_display''
            then s\<lparr>heap := (heap s)(r := (heap s r)\<lparr>castShadow := True, receiveShadow := True\<rparr>),
                   innerDisplay := Some r\<rparr>
            else if name (heap s r) = ''laptop_outer_display''
            then s\<lparr>heap := (heap s)(r := (heap s r)\<lparr>castShadow := True, receiveShadow := True\<rparr>),
                   outerDisplay := Some r\<rparr>
            else if name (heap s r) = ''laptop_screen''
            then s\<lparr>heap := (heap s)(r := (heap s r)\<lparr>castShadow := True, receiveShadow := True\<rparr>),
                   screen := Some r\<rparr>
            else s\<lparr>heap := (heap s)(r := (heap s r)\<lparr>castShadow := True, receiveShadow := True\<rparr>)\<rparr>)
      else s)"

text \<open>Line 111, \<open>scene.value?.add(model)\<close>.\<close>

definition add_model :: "tree \<Rightarrow> state \<Rightarrow> state" where
  "add_model model s =
     (case scene s of
        None \<Rightarrow> s
      | Some sc \<Rightarrow> s\<lparr>scene := Some (sc\<lparr>children := children sc @ [model]\<rparr>)\<rparr>)"

text \<open>Lines 87 to 115, the success callback, on the root of the loaded model.\<close>

definition onLoad :: "tree \<Rightarrow> state \<Rightarrow> error + state" where
  "onLoad model s = animate (add_model model (fold visit (traverse model) s))"

text \<open>Lines 119 to 121, the failure callback: it logs.\<close>

definition onError :: "state \<Rightarrow> state" where
  "onError s = s"

section \<open>onUnmounted\<close>

definition cancelAnimationFrame :: "nat \<Rightarrow> state \<Rightarrow> state" where
  "cancelAnimationFrame fid s = s\<lparr>frameQueue := removeAll fid (frameQueue s)\<rparr>"

fun dispose_material :: "material \<Rightarrow> material" where
  "dispose_material (Single _) = Single True"
| "dispose_material (Multi ms) = Multi (map (\<lambda>_. True) ms)"

text \<open>Lines 188 to 197, at one object of the scene.\<close>

definition dispose_object :: "Object3D \<Rightarrow> Object3D" where
  "dispose_object ob =
     (if kind ob = Mesh
      then ob\<lparr>geometry := map_option (\<lambda>_. True) (geometry ob),
              material := map_option dispose_material (material ob)\<rparr>
      else ob)"

definition dispose_at :: "ref \<Rightarrow> state \<Rightarrow> state" where
  "dispose_at r s = s\<lparr>heap := (heap s)(r := dispose_object (heap s r))\<rparr>"

text \<open>Lines 175 to 177; a handle is truthy when it is neither null nor zero.\<close>

definition cancel_loop :: "state \<Rightarrow> state" where
  "cancel_loop s =
     (case animationFrameId s of
        None \<Rightarrow> s
      | Some fid \<Rightarrow> if fid = 0 then s else cancelAnimationFrame fid s)"

definition dispose_renderer :: "state \<Rightarrow> state" where
  "dispose_renderer s =
     (case renderer s of
        None \<Rightarrow> s
      | Some r \<Rightarrow> s\<lparr>renderer := Some (r\<lparr>disposed := True\<rparr>)\<rparr>)"

definition dispose_scene :: "state \<Rightarrow> state" where
  "dispose_scene s =
     (case scene s of
        None \<Rightarrow> s
      | Some sc \<Rightarrow> fold dispose_at (concat (map traverse (children sc))) s)"

definition clear_refs :: "state \<Rightarrow> state" where
  "clear_refs s =
     s\<lparr>scene := None, camera := None, renderer := None, innerDisplay := None,
       outerDisplay := None, screen := None, canvasRef := None\<rparr>"

text \<open>
  Lines 173 to 215. The traversal of line 187 starts at the scene itself, which is no mesh,
  and goes on through its children.
\<close>

definition onUnmounted :: "state \<Rightarrow> state" where
  "onUnmounted s =
     clear_refs (dispose_scene (dispose_renderer ((cancel_loop s)\<lparr>resizeListener := False\<rparr>)))"

section \<open>Events\<close>

text \<open>
  What the host can do to the component: mount and unmount it, resize the window, settle
  the load either way, and run the oldest requested animation frame. The loader has built
  the objects of the model in the store by the time it calls back with the root.
\<close>

datatype event =
    Mounted
  | Unmounted
  | Resize number number
  | LoadSuccess tree
  | LoadProgress
  | LoadError
  | Frame


definition resize_window :: "number \<Rightarrow> number \<Rightarrow> state \<Rightarrow> state" where
  "resize_window w h s = s\<lparr>window := (window s)\<lparr>innerWidth := w, innerHeight := h\<rparr>\<rparr>"

fun fire :: "event \<Rightarrow> state \<Rightarrow> error + state" where
  "fire Mounted s = Inr (initThree s)"
| "fire Unmounted s = Inr (onUnmounted s)"
| "fire (Resize w h) s =
     Inr (if resizeListener s then handleResize (resize_window w h s) else resize_window w h s)"
| "fire (LoadSuccess model) s =
     (if loadPending s then onLoad model (s\<lparr>loadPending := False\<rparr>) else Inr s)"
| "fire LoadProgress s = Inr s"
| "fire LoadError s = Inr (if loadPending s then onError (s\<lparr>loadPending := False\<rparr>) else s)"
| "fire Frame s =
     (case frameQueue s of
        [] \<Rightarrow> Inr s
      | fid # q \<Rightarrow> animate (s\<lparr>frameQueue := q\<rparr>))"

fun run :: "event list \<Rightarrow> state \<Rightarrow> error + state" where
  "run [] s = Inr s"
| "run (ev # evs) s = (case fire ev s of Inl e \<Rightarrow> Inl e | Inr s' \<Rightarrow> run evs s')"

text \<open>A component that has not been mounted yet, with its canvas in place.\<close>

definition created :: "nat \<Rightarrow> Window \<Rightarrow> (ref \<Rightarrow> Object3D) \<Rightarrow> state" where
  "created cv w h =
     \<lparr>canvasRef = Some cv, scene = None, camera = None, renderer = None, innerDisplay = None,
      outerDisplay = None, screen = None, animationFrameId = None, heap = h, nextRef = 0,
      window = w, resizeListener = False, frameQueue = [], lastFrameId = 0,
      loadPending = False\<rparr>"

section \<open>Notions used in the statements and proofs\<close>

subsection \<open>Rounding a magnitude\<close>

text \<open>What \<open>round_to\<close> makes of a positive magnitude before the overflow check.\<close>

definition rmag :: "rat \<Rightarrow> rat" where
  "rmag a = of_int (round_half_even (a / 2 powi quantum (expo a))) * 2 powi quantum (expo a)"

subsection \<open>The frame callback as a function\<close>

text \<open>The result of \<open>render\<close> when nothing fails.\<close>

definition drawn :: "state \<Rightarrow> state" where
  "drawn s = (case renderer s of None \<Rightarrow> s | Some r \<Rightarrow>
      if scene s \<noteq> None \<and> camera s \<noteq> None then s\<lparr>renderer := Some (r\<lparr>drawCalls := drawCalls r + 1\<rparr>)\<rparr> else s)"

text \<open>Lines 149 to 151 on the angle alone.\<close>

definition next_angle :: "number \<Rightarrow> number" where
  "next_angle x = (if num_gt x rotation_floor then num_sub x rotationSpeed else x)"

text \<open>The angle \<open>innerDisplay.value.rotation.x\<close>, when the handle is set.\<close>

definition inner_angle :: "state \<Rightarrow> number option" where
  "inner_angle s = map_option (\<lambda>i. rotation_x (heap s i)) (innerDisplay s)"

text \<open>That angle after \<open>n\<close> runs of the frame callback.\<close>

definition angle_after :: "nat \<Rightarrow> state \<Rightarrow> number option" where
  "angle_after n s = (case frames n s of Inl e \<Rightarrow> None | Inr s' \<Rightarrow> inner_angle s')"

subsection \<open>The scene without the model\<close>




subsection \<open>Meshes by name\<close>

text \<open>The meshes of a given name among the references \<open>rs\<close>, in their order.\<close>

definition named_meshes :: "string \<Rightarrow> ref list \<Rightarrow> state \<Rightarrow> ref list" where
  "named_meshes nm rs s = filter (\<lambda>r. kind (heap s r) = Mesh \<and> name (heap s r) = nm) rs"

text \<open>The handle for a name after the traversal: the last mesh of that name, else the old handle.\<close>

definition last_match :: "string \<Rightarrow> tree \<Rightarrow> state \<Rightarrow> ref option \<Rightarrow> ref option" where
  "last_match nm model s old =
     (if named_meshes nm (traverse model) s = [] then old
      else Some (last (named_meshes nm (traverse model) s)))"

subsection \<open>A sample component\<close>

text \<open>A window of 800 by 600 pixels.\<close>

definition laptop_window :: Window where
  "laptop_window = \<lparr>innerWidth = Fin 800, innerHeight = Fin 600, devicePixelRatio = Fin 1\<rparr>"

text \<open>An object of the loaded model.\<close>

definition part :: "kind \<Rightarrow> string \<Rightarrow> number \<Rightarrow> Object3D" where
  "part k nm x =
     \<lparr>kind = k, name = nm, castShadow = False, receiveShadow = False, rotation_x = x,
      position = (Fin 0, Fin 0, Fin 0), geometry = Some False, material = Some (Single False)\<rparr>"

text \<open>A store with a model in which two meshes are named \<open>laptop_inner_display\<close>.\<close>

definition laptop_heap :: "ref \<Rightarrow> Object3D" where
  "laptop_heap =
     (\<lambda>_. part Other [] (Fin 0))
       (10 := part Mesh ''laptop_inner_display'' (Fin 0),
        11 := part Mesh ''laptop_outer_display'' (Fin 0),
        12 := part Mesh ''laptop_screen'' (Fin 0),
        13 := part Mesh ''laptop_inner_display'' (Fin (- 2)))"

text \<open>A model that has two inner displays, one outer display and no screen.\<close>

definition laptop_model :: tree where
  "laptop_model = Node 9 [Node 10 [Node 11 []], Node 13 []]"

text \<open>The component right after \<open>onMounted\<close>.\<close>

definition mounted_laptop :: state where
  "mounted_laptop = initThree (created 0 laptop_window laptop_heap)"

text \<open>The component with its three handles set and one frame requested.\<close>

definition running_laptop :: state where
  "running_laptop =
     mounted_laptop\<lparr>innerDisplay := Some 10, outerDisplay := Some 11, screen := Some 12,
       animationFrameId := Some 1, frameQueue := [1], lastFrameId := 1, loadPending := False\<rparr>"

text \<open>The running component with the inner display at angle \<open>x\<close>.\<close>

definition laptop_at :: "number \<Rightarrow> state" where
  "laptop_at x = set_rotation_x 10 x running_laptop"

section \<open>Powers of two and the binary exponent\<close>

text \<open>
  The exponent \<open>expo a\<close> of a positive rational is the one integer with
  \<open>2 powi expo a \<le> a < 2 powi (expo a + 1)\<close>.
\<close>

lemma p2_pos: "0 < (2::rat) powi k"
  by simp

lemma p2_add: "(2::rat) powi (a + b) = 2 powi a * 2 powi b"
  by (rule power_int_add) simp

lemma p2_diff: "(2::rat) powi (a - b) = 2 powi a / 2 powi b"
  by (rule power_int_diff) simp

lemma p2_mono: "a \<le> b \<Longrightarrow> (2::rat) powi a \<le> 2 powi b"
  by (rule power_int_increasing) simp_all

lemma p2_strict_mono: "a < b \<Longrightarrow> (2::rat) powi a < 2 powi b"
  by (rule power_int_strict_increasing) simp_all

lemma p2_less_cancel: "(2::rat) powi a < 2 powi b \<Longrightarrow> a < b"
  using p2_mono [of b a] by (cases "a < b") auto

lemma p2_le_cancel: "(2::rat) powi a \<le> 2 powi b \<Longrightarrow> a \<le> b"
  using p2_strict_mono [of b a] by (cases "a \<le> b") auto

lemma p2_nat: "0 \<le> k \<Longrightarrow> (2::rat) powi k = of_int (2 ^ nat k)"
  by (simp add: power_int_nonneg_exp)

lemma ilog2_bounds: "0 < n \<Longrightarrow> 2 ^ ilog2 n \<le> n \<and> n < 2 ^ Suc (ilog2 n)"
proof (induction n rule: ilog2.induct)
  case (1 n)
  show ?case
  proof (cases "n < 2")
    case True
    then show ?thesis using "1.prems" by (simp add: ilog2.simps)
  next
    case False
    then have "0 < n div 2" by simp
    with "1.IH" False have "2 ^ ilog2 (n div 2) \<le> n div 2" "n div 2 < 2 ^ Suc (ilog2 (n div 2))"
      by simp_all
    then show ?thesis using False by (subst (1 2) ilog2.simps) auto
  qed
qed

lemma clog2_bounds: "2 \<le> n \<Longrightarrow> n \<le> 2 ^ clog2 n \<and> 2 ^ (clog2 n - 1) < n"
  using ilog2_bounds [of "n - 1"] by (auto simp: clog2_def)

lemma clog2_pos: "2 \<le> n \<Longrightarrow> 0 < clog2 n"
  by (simp add: clog2_def)

lemma expo_bounds:
  assumes "0 < a"
  shows "2 powi expo a \<le> a \<and> a < 2 powi (expo a + 1)"
proof (cases "1 \<le> a")
  case True
  define n where "n = nat \<lfloor>a\<rfloor>"
  have n: "0 < n" "of_nat n \<le> a" "a < of_nat n + 1"
    using True by (simp_all add: n_def) linarith+
  have e: "expo a = int (ilog2 n)" using True by (simp add: expo_def n_def)
  from ilog2_bounds [OF n(1)] have "(2::nat) ^ ilog2 n \<le> n" "n + 1 \<le> 2 ^ Suc (ilog2 n)" by simp_all
  then have "(of_nat (2 ^ ilog2 n) :: rat) \<le> of_nat n" "(of_nat (n + 1) :: rat) \<le> of_nat (2 ^ Suc (ilog2 n))"
    by (simp_all only: of_nat_le_iff)
  then have "(2::rat) ^ ilog2 n \<le> of_nat n" "(of_nat n :: rat) + 1 \<le> 2 ^ Suc (ilog2 n)"
    by (simp_all only: of_nat_power of_nat_numeral of_nat_add of_nat_1)
  then have "(2::rat) ^ ilog2 n \<le> a" "a < 2 ^ Suc (ilog2 n)"
    using n(2,3) by linarith+
  moreover have "(2::rat) powi (int (ilog2 n) + 1) = 2 ^ Suc (ilog2 n)"
    by (simp add: p2_add)
  ultimately show ?thesis by (simp add: e)
next
  case False
  define y where "y = 1 / a"
  define n where "n = nat \<lceil>y\<rceil>"
  have y: "1 < y" using assms False by (simp add: y_def)
  then have n: "2 \<le> n" "y \<le> of_nat n" "of_nat n < y + 1"
    by (simp_all add: n_def) linarith+
  have e: "expo a = - int (clog2 n)" using False by (simp add: expo_def n_def y_def)
  define c where "c = clog2 n"
  from clog2_bounds [OF n(1)] clog2_pos [OF n(1)]
  have c: "n \<le> 2 ^ c" "2 ^ (c - 1) + 1 \<le> n" "0 < c" by (simp_all add: c_def)
  then have "(of_nat n :: rat) \<le> of_nat (2 ^ c)" "(of_nat (2 ^ (c - 1) + 1) :: rat) \<le> of_nat n"
    by (simp_all only: of_nat_le_iff)
  then have "(of_nat n :: rat) \<le> 2 ^ c" "(2::rat) ^ (c - 1) + 1 \<le> of_nat n"
    by (simp_all only: of_nat_power of_nat_numeral of_nat_add of_nat_1)
  then have b: "y \<le> 2 ^ c" "2 ^ (c - 1) < y" using n(2,3) by linarith+
  have "1 / 2 ^ c \<le> a"
    using b(1) assms y by (simp add: y_def field_simps)
  moreover have "a < 1 / 2 ^ (c - 1)"
    using b(2) assms y by (simp add: y_def field_simps)
  moreover have "(2::rat) powi (- int c) = 1 / 2 ^ c"
    by (simp add: power_int_minus field_simps)
  moreover have "(2::rat) powi (- int c + 1) = 1 / 2 ^ (c - 1)"
  proof -
    have "- int c + 1 = - int (c - 1)" using c(3) by simp
    then have "(2::rat) powi (- int c + 1) = 2 powi (- int (c - 1))" by (rule arg_cong)
    also have "\<dots> = 1 / 2 ^ (c - 1)" by (simp add: power_int_minus field_simps)
    finally show ?thesis .
  qed
  ultimately show ?thesis by (simp add: e c_def)
qed

lemma expo_unique:
  assumes "0 < a" "2 powi e \<le> a" "a < 2 powi (e + 1)"
  shows "expo a = e"
proof -
  from expo_bounds [OF assms(1)] have b: "2 powi expo a \<le> a" "a < 2 powi (expo a + 1)" by simp_all
  have "(2::rat) powi e < 2 powi (expo a + 1)" using assms(2) b(2) by simp
  then have "e < expo a + 1" by (rule p2_less_cancel)
  moreover have "(2::rat) powi expo a < 2 powi (e + 1)" using assms(3) b(1) by simp
  then have "expo a < e + 1" by (rule p2_less_cancel)
  ultimately show ?thesis by simp
qed

lemma expo_mono:
  assumes "0 < a" "a \<le> b"
  shows "expo a \<le> expo b"
proof -
  have "(2::rat) powi expo a \<le> a" using expo_bounds [OF assms(1)] by simp
  also have "a \<le> b" by fact
  also have "b < 2 powi (expo b + 1)" using expo_bounds [of b] assms by simp
  finally have "expo a < expo b + 1" by (rule p2_less_cancel)
  then show ?thesis by simp
qed

section \<open>Rounding to the nearest integer\<close>

lemma rhe_of_int [simp]: "round_half_even (of_int k) = k"
  by (simp add: round_half_even_def)

lemma rhe_range: "\<lfloor>x\<rfloor> \<le> round_half_even x \<and> round_half_even x \<le> \<lfloor>x\<rfloor> + 1"
  by (simp add: round_half_even_def)

lemma rhe_mono:
  assumes "x \<le> y"
  shows "round_half_even x \<le> round_half_even y"
proof (cases "\<lfloor>x\<rfloor> = \<lfloor>y\<rfloor>")
  case True
  then have "x - of_int \<lfloor>x\<rfloor> \<le> y - of_int \<lfloor>y\<rfloor>" using assms by simp
  then show ?thesis using True by (auto simp: round_half_even_def)
next
  case False
  then have "\<lfloor>x\<rfloor> + 1 \<le> \<lfloor>y\<rfloor>" using floor_mono [OF assms] by simp
  then show ?thesis using rhe_range [of x] rhe_range [of y] by linarith
qed

lemma rhe_nonneg: "0 \<le> x \<Longrightarrow> 0 \<le> round_half_even x"
  using rhe_mono [of 0 x] rhe_of_int [of 0] by simp

lemma rhe_le_int: "x \<le> of_int k \<Longrightarrow> round_half_even x \<le> k"
  using rhe_mono [of x "of_int k"] by simp

lemma rhe_ge_int: "of_int k \<le> x \<Longrightarrow> k \<le> round_half_even x"
  using rhe_mono [of "of_int k" x] by simp

section \<open>Rounding a magnitude is monotone\<close>

text \<open>
  Within one binade rounding is monotone because \<open>round_half_even\<close> is; across
  binades the power of two between the two magnitudes lies on both grids and separates the
  results.
\<close>

lemma quantum_mono: "e \<le> e' \<Longrightarrow> quantum e \<le> quantum e'"
  by (simp add: quantum_def)

lemma rmag_nonneg: "0 < a \<Longrightarrow> 0 \<le> rmag a"
  by (simp add: rmag_def rhe_nonneg)

lemma p2_on_grid: "q \<le> e \<Longrightarrow> (2::rat) powi e / 2 powi q = of_int (2 ^ nat (e - q))"
  using p2_diff [of e q] p2_nat [of "e - q"] by simp

lemma rmag_le_p2:
  assumes "0 < a" "a \<le> 2 powi e" "quantum (expo a) \<le> e"
  shows "rmag a \<le> 2 powi e"
proof -
  let ?q = "quantum (expo a)"
  have "a / 2 powi ?q \<le> 2 powi e / 2 powi ?q"
    using assms(2) by (simp add: divide_right_mono)
  also have "\<dots> = of_int (2 ^ nat (e - ?q))" using assms(3) by (rule p2_on_grid)
  finally have "round_half_even (a / 2 powi ?q) \<le> 2 ^ nat (e - ?q)" by (rule rhe_le_int)
  then have "(of_int (round_half_even (a / 2 powi ?q)) :: rat) \<le> of_int (2 ^ nat (e - ?q))"
    by (simp only: of_int_le_iff)
  then have "rmag a \<le> of_int (2 ^ nat (e - ?q)) * 2 powi ?q"
    unfolding rmag_def by (simp add: mult_right_mono)
  also have "\<dots> = 2 powi e" using p2_on_grid [OF assms(3)] by (simp add: field_simps)
  finally show ?thesis .
qed

lemma rmag_ge_p2:
  assumes "0 < a" "2 powi e \<le> a" "quantum (expo a) \<le> e"
  shows "2 powi e \<le> rmag a"
proof -
  let ?q = "quantum (expo a)"
  have "2 powi e / 2 powi ?q \<le> a / 2 powi ?q"
    using assms(2) by (simp add: divide_right_mono)
  then have "of_int (2 ^ nat (e - ?q)) \<le> a / 2 powi ?q"
    using p2_on_grid [OF assms(3)] by simp
  then have "2 ^ nat (e - ?q) \<le> round_half_even (a / 2 powi ?q)" by (rule rhe_ge_int)
  then have "(of_int (2 ^ nat (e - ?q)) :: rat) \<le> of_int (round_half_even (a / 2 powi ?q))"
    by (simp only: of_int_le_iff)
  then have "of_int (2 ^ nat (e - ?q)) * 2 powi ?q \<le> rmag a"
    unfolding rmag_def by (simp add: mult_right_mono)
  moreover have "of_int (2 ^ nat (e - ?q)) * 2 powi ?q = (2::rat) powi e"
    using p2_on_grid [OF assms(3)] by (simp add: field_simps)
  ultimately show ?thesis by simp
qed

lemma quantum_le_expo: "- 1074 \<le> e \<Longrightarrow> quantum e \<le> e"
  by (simp add: quantum_def)

lemma rmag_mono:
  assumes "0 < a" "a \<le> b"
  shows "rmag a \<le> rmag b"
proof -
  have b: "0 < b" using assms by simp
  have e: "expo a \<le> expo b" using assms by (rule expo_mono)
  then have q: "quantum (expo a) \<le> quantum (expo b)" by (rule quantum_mono)
  show ?thesis
  proof (cases "quantum (expo a) = quantum (expo b)")
    case True
    have "a / 2 powi quantum (expo b) \<le> b / 2 powi quantum (expo b)"
      using assms(2) by (simp add: divide_right_mono)
    then have "round_half_even (a / 2 powi quantum (expo b)) \<le> round_half_even (b / 2 powi quantum (expo b))"
      by (rule rhe_mono)
    then have "(of_int (round_half_even (a / 2 powi quantum (expo b))) :: rat)
        \<le> of_int (round_half_even (b / 2 powi quantum (expo b)))"
      by (simp only: of_int_le_iff)
    then show ?thesis unfolding rmag_def True by (simp add: mult_right_mono)
  next
    case False
    with q have lt: "quantum (expo a) < quantum (expo b)" by simp
    then have qb: "quantum (expo b) = expo b - 52" and ee: "expo a < expo b"
      by (auto simp: quantum_def max_def split: if_splits)
    have "a < 2 powi (expo a + 1)" using expo_bounds [OF assms(1)] by simp
    also have "\<dots> \<le> 2 powi expo b" using ee by (intro p2_mono) simp
    finally have "a \<le> 2 powi expo b" by simp
    moreover have "quantum (expo a) \<le> expo b" using lt qb by simp
    ultimately have "rmag a \<le> 2 powi expo b" using assms(1) by (intro rmag_le_p2)
    also have "\<dots> \<le> rmag b"
      using b expo_bounds [OF b] qb by (intro rmag_ge_p2) simp_all
    finally show ?thesis .
  qed
qed

lemma significand_le:
  assumes "0 < a"
  shows "round_half_even (a / 2 powi quantum (expo a)) \<le> 2 ^ 53"
proof -
  let ?e = "expo a" and ?q = "quantum (expo a)"
  have "a < 2 powi (?e + 1)" using expo_bounds [OF assms] by simp
  also have "\<dots> \<le> 2 powi (?q + 53)" by (intro p2_mono) (simp add: quantum_def)
  also have "\<dots> = 2 powi ?q * 2 ^ 53" by (simp add: p2_add)
  finally have "a / 2 powi ?q \<le> 2 ^ 53" by (simp add: field_simps)
  then have "a / 2 powi ?q \<le> of_int (2 ^ 53)" by simp
  then show ?thesis by (rule rhe_le_int)
qed

lemma significand_ge:
  assumes "0 < a" "- 1022 \<le> expo a"
  shows "2 ^ 52 \<le> round_half_even (a / 2 powi quantum (expo a))"
proof -
  let ?e = "expo a" and ?q = "quantum (expo a)"
  have q: "?q = ?e - 52" using assms(2) by (simp add: quantum_def)
  have "2 powi ?q * 2 ^ 52 = (2::rat) powi (?q + 52)" by (simp add: p2_add)
  also have "\<dots> = 2 powi ?e" by (simp add: q)
  also have "\<dots> \<le> a" using expo_bounds [OF assms(1)] by simp
  finally have "2 ^ 52 \<le> a / 2 powi ?q" by (simp add: field_simps)
  then have "of_int (2 ^ 52) \<le> a / 2 powi ?q" by simp
  then show ?thesis by (rule rhe_ge_int)
qed

lemma overflow_iff:
  assumes "0 < a"
  shows "(1024 \<le> expo a \<or> (expo a = 1023 \<and> round_half_even (a / 2 powi quantum (expo a)) = 2 ^ 53))
          \<longleftrightarrow> 2 powi 1024 \<le> rmag a"
proof -
  let ?e = "expo a" and ?q = "quantum (expo a)"
  let ?m = "round_half_even (a / 2 powi ?q)"
  have m53: "?m \<le> 2 ^ 53" using assms by (rule significand_le)
  show ?thesis
  proof (cases "1024 \<le> ?e")
    case True
    have "(2::rat) powi 1024 \<le> 2 powi ?e" using True by (rule p2_mono)
    also have "\<dots> \<le> rmag a"
      using assms expo_bounds [OF assms] True by (intro rmag_ge_p2) (simp_all add: quantum_def)
    finally show ?thesis using True by simp
  next
    case False
    show ?thesis
    proof (cases "?e = 1023")
      case e: True
      then have q: "?q = 971" by (simp add: quantum_def)
      have r: "rmag a = of_int ?m * 2 powi 971" by (simp add: rmag_def q)
      have "(2 powi 1024 \<le> rmag a) = ((2::rat) ^ 53 * 2 powi 971 \<le> of_int ?m * 2 powi 971)"
        by (simp add: r)
      also have "\<dots> = ((2::rat) ^ 53 \<le> of_int ?m)"
        by (simp only: mult_le_cancel_right_pos [OF p2_pos])
      also have "\<dots> = (of_int (2 ^ 53) \<le> (of_int ?m :: rat))" by simp
      also have "\<dots> = (2 ^ 53 \<le> ?m)" by (simp only: of_int_le_iff)
      also have "\<dots> = (?m = 2 ^ 53)" using m53 by auto
      finally show ?thesis using e by simp
    next
      case ne: False
      with False have le: "?e \<le> 1022" by simp
      have "(of_int ?m :: rat) \<le> of_int (2 ^ 53)" using m53 by (simp only: of_int_le_iff)
      then have "rmag a \<le> 2 ^ 53 * 2 powi ?q" by (simp add: rmag_def mult_right_mono)
      also have "\<dots> = 2 powi (?q + 53)" by (simp add: p2_add)
      also have "\<dots> < 2 powi 1024" using le by (intro p2_strict_mono) (simp add: quantum_def)
      finally show ?thesis using False ne by simp
    qed
  qed
qed

section \<open>Rounding to binary64\<close>

text \<open>
  \<open>round_double\<close> is \<open>rmag\<close> on the magnitude, with the sign put back and
  everything from \<open>2 powi 1024\<close> on sent to infinity. It is monotone.
\<close>

lemma round_double_pos:
  "0 < x \<Longrightarrow> round_double x = (if 2 powi 1024 \<le> rmag x then PInf else Fin (rmag x))"
  using overflow_iff [of x]
  by (simp add: round_double_def round_to_def pack_def rmag_def del: power_int_numeral)

lemma round_double_neg:
  "x < 0 \<Longrightarrow> round_double x = (if 2 powi 1024 \<le> rmag (- x) then NInf else Fin (- rmag (- x)))"
  using overflow_iff [of "- x"]
  by (simp add: round_double_def round_to_def pack_def rmag_def del: power_int_numeral)

lemma round_double_mono:
  assumes "x \<le> y"
  shows "\<not> num_gt (round_double x) (round_double y)"
proof -
  consider "0 < x" | "y < 0" | "x \<le> 0" "0 \<le> y" by linarith
  then show ?thesis
  proof cases
    case 1
    then have "0 < y" using assms by simp
    moreover have "rmag x \<le> rmag y" using 1 assms by (rule rmag_mono)
    ultimately show ?thesis using 1 by (simp add: round_double_pos)
  next
    case 2
    then have "x < 0" using assms by simp
    moreover have "rmag (- y) \<le> rmag (- x)" using 2 assms by (intro rmag_mono) simp_all
    ultimately show ?thesis using 2 by (simp add: round_double_neg)
  next
    case 3
    have "round_double x = NInf \<or> (\<exists>r. round_double x = Fin r \<and> r \<le> 0)"
    proof (cases "x = 0")
      case True
      then show ?thesis by (simp add: round_double_def)
    next
      case False
      then have "x < 0" using 3(1) by simp
      then show ?thesis using rmag_nonneg [of "- x"] by (simp add: round_double_neg)
    qed
    moreover have "round_double y = PInf \<or> (\<exists>r. round_double y = Fin r \<and> 0 \<le> r)"
    proof (cases "y = 0")
      case True
      then show ?thesis by (simp add: round_double_def)
    next
      case False
      then have "0 < y" using 3(2) by simp
      then show ?thesis using rmag_nonneg [of y] by (simp add: round_double_pos)
    qed
    ultimately show ?thesis by auto
  qed
qed

section \<open>Binary64 values are fixed points of rounding\<close>

text \<open>
  A result of \<open>round_double\<close> is a significand below \<open>2 ^ 53\<close> times a power
  of two not below \<open>2 powi (- 1074)\<close>, and rounding leaves such a value alone.
  From 1 on, binary64 values are multiples of \<open>2 powi (- 52)\<close>.
\<close>

lemma rmag_fix:
  assumes "1 \<le> m" "m < 2 ^ 53" "- 1074 \<le> q"
  shows "rmag (of_int m * 2 powi q) = of_int m * 2 powi q"
proof -
  define r :: rat where "r = of_int m * 2 powi q"
  have rpos: "0 < r" using assms(1) by (simp add: r_def)
  let ?e = "expo r" and ?q = "quantum (expo r)"
  have "(of_int m :: rat) < of_int (2 ^ 53)" using assms(2) by (simp only: of_int_less_iff)
  then have "r < 2 ^ 53 * 2 powi q" unfolding r_def by (simp add: mult_strict_right_mono)
  also have "\<dots> = 2 powi (q + 53)" by (simp add: p2_add)
  finally have "r < 2 powi (q + 53)" .
  moreover have "2 powi ?e \<le> r" using expo_bounds [OF rpos] by simp
  ultimately have "(2::rat) powi ?e < 2 powi (q + 53)" by simp
  then have "?e < q + 53" by (rule p2_less_cancel)
  then have qq: "?q \<le> q" using assms(3) by (simp add: quantum_def)
  have "r / 2 powi ?q = of_int m * (2 powi q / 2 powi ?q)" by (simp add: r_def)
  also have "\<dots> = of_int m * of_int (2 ^ nat (q - ?q))" using p2_on_grid [OF qq] by simp
  also have "\<dots> = of_int (m * 2 ^ nat (q - ?q))" by simp
  finally have "round_half_even (r / 2 powi ?q) = m * 2 ^ nat (q - ?q)" by (simp only: rhe_of_int)
  then have "rmag r = of_int (m * 2 ^ nat (q - ?q)) * 2 powi ?q" by (simp add: rmag_def)
  also have "\<dots> = of_int m * (of_int (2 ^ nat (q - ?q)) * 2 powi ?q)" by simp
  also have "of_int (2 ^ nat (q - ?q)) * 2 powi ?q = (2::rat) powi q"
    using p2_on_grid [OF qq] by (simp add: field_simps)
  finally show ?thesis by (simp add: r_def)
qed

lemma rmag_repr:
  assumes "0 < a"
  shows "rmag a = 0 \<or> (\<exists>m q. rmag a = of_int m * 2 powi q \<and> 1 \<le> m \<and> m < 2 ^ 53 \<and> - 1074 \<le> q)"
proof -
  let ?q = "quantum (expo a)"
  let ?m = "round_half_even (a / 2 powi ?q)"
  have m: "0 \<le> ?m" "?m \<le> 2 ^ 53"
    using assms significand_le [OF assms] by (simp_all add: rhe_nonneg)
  have q: "- 1074 \<le> ?q" by (simp add: quantum_def)
  consider "?m = 0" | "1 \<le> ?m" "?m < 2 ^ 53" | "?m = 2 ^ 53" using m by linarith
  then show ?thesis
  proof cases
    case 1
    then show ?thesis by (simp add: rmag_def)
  next
    case 2
    then show ?thesis using q unfolding rmag_def by blast
  next
    case 3
    have "rmag a = 2 ^ 53 * 2 powi ?q" by (simp add: rmag_def 3)
    also have "\<dots> = 2 ^ 52 * 2 powi (?q + 1)" by (simp add: p2_add)
    also have "\<dots> = of_int (2 ^ 52) * 2 powi (?q + 1)" by simp
    finally have "rmag a = of_int (2 ^ 52) * 2 powi (?q + 1)" .
    moreover have "(1::int) \<le> 2 ^ 52" "(2::int) ^ 52 < 2 ^ 53" "- 1074 \<le> ?q + 1" using q by simp_all
    ultimately show ?thesis by blast
  qed
qed

lemma rmag_idem: "0 < a \<Longrightarrow> 0 < rmag a \<Longrightarrow> rmag (rmag a) = rmag a"
  using rmag_repr [of a] rmag_fix by auto

lemma round_double_is_double:
  assumes "round_double x = Fin r"
  shows "is_double r"
proof -
  consider "x = 0" | "0 < x" | "x < 0" by linarith
  then show ?thesis
  proof cases
    case 1
    then show ?thesis using assms by (auto simp: round_double_def is_double_def)
  next
    case 2
    then have r: "r = rmag x" "\<not> 2 powi 1024 \<le> rmag x"
      using assms by (auto simp: round_double_pos split: if_splits)
    show ?thesis
    proof (cases "rmag x = 0")
      case True
      then show ?thesis using r by (simp add: is_double_def round_double_def)
    next
      case False
      then have "0 < rmag x" using rmag_nonneg [OF 2] by simp
      then show ?thesis
        using r rmag_idem [OF 2] by (simp add: is_double_def round_double_pos)
    qed
  next
    case 3
    then have r: "r = - rmag (- x)" "\<not> 2 powi 1024 \<le> rmag (- x)"
      using assms by (auto simp: round_double_neg split: if_splits)
    show ?thesis
    proof (cases "rmag (- x) = 0")
      case True
      then show ?thesis using r by (simp add: is_double_def round_double_def)
    next
      case False
      then have "0 < rmag (- x)" using rmag_nonneg [of "- x"] 3 by simp
      then show ?thesis
        using r rmag_idem [of "- x"] 3 by (simp add: is_double_def round_double_neg)
    qed
  qed
qed

lemma expo_one: "expo 1 = 0"
  by (rule expo_unique) simp_all

lemma rmag_grid_52:
  assumes "1 \<le> a"
  shows "\<exists>k::int. rmag a = of_int k / 2 ^ 52"
proof -
  have a: "0 < a" using assms by simp
  have "expo 1 \<le> expo a" using assms by (intro expo_mono) simp_all
  then have q: "- 52 \<le> quantum (expo a)" by (simp add: expo_one quantum_def)
  let ?q = "quantum (expo a)"
  let ?m = "round_half_even (a / 2 powi ?q)"
  have "(2::rat) powi ?q = 2 powi (?q + 52) / 2 ^ 52" by (simp add: p2_add)
  also have "2 powi (?q + 52) = (of_int (2 ^ nat (?q + 52)) :: rat)" using q by (intro p2_nat) simp
  finally have "rmag a = of_int (?m * 2 ^ nat (?q + 52)) / 2 ^ 52" by (simp add: rmag_def)
  then show ?thesis by blast
qed

lemma is_double_grid_52:
  assumes "is_double x" "x \<le> - 1"
  shows "\<exists>k::int. x = of_int k / 2 ^ 52"
proof -
  have "x < 0" using assms(2) by simp
  then have "x = - rmag (- x)"
    using assms(1) by (auto simp: is_double_def round_double_neg split: if_splits)
  moreover obtain k :: int where "rmag (- x) = of_int k / 2 ^ 52"
    using rmag_grid_52 [of "- x"] assms(2) by auto
  ultimately have "x = of_int (- k) / 2 ^ 52" by simp
  then show ?thesis by blast
qed

section \<open>Evaluating the arithmetic\<close>

text \<open>
  Rewrite rules that let the simplifier compute \<open>round_double\<close> on numerals, and the
  constants of the frame callback.
\<close>

lemma floor_rat_numeral [simp]: "\<lfloor>numeral a / numeral b :: rat\<rfloor> = numeral a div numeral b"
  using floor_divide_of_int_eq [of "numeral a" "numeral b", where ?'a = rat] by simp

lemma floor_rat_neg_numeral [simp]: "\<lfloor>- (numeral a / numeral b) :: rat\<rfloor> = - numeral a div numeral b"
  using floor_divide_of_int_eq [of "- numeral a" "numeral b", where ?'a = rat] by simp

lemma ceiling_rat_numeral [simp]: "\<lceil>numeral a / numeral b :: rat\<rceil> = - (- numeral a div numeral b)"
  by (simp add: ceiling_def)

lemma ilog2_numeral [simp]:
  "ilog2 (numeral k) = (if numeral k < (2::nat) then 0 else Suc (ilog2 (numeral k div 2)))"
  by (rule ilog2.simps)

lemma ilog2_0 [simp]: "ilog2 0 = 0" by (simp add: ilog2.simps)

lemma ilog2_1 [simp]: "ilog2 1 = 0" by (simp add: ilog2.simps)

lemma ilog2_Suc0 [simp]: "ilog2 (Suc 0) = 0" by (simp add: ilog2.simps)

lemmas round_eval = round_double_def round_to_def pack_def quantum_def expo_def clog2_def
  round_half_even_def lit_def

lemma rotationSpeed_val: "rotationSpeed = Fin (5764607523034235 / 1152921504606846976)"
  by (simp add: rotationSpeed_def round_eval)

lemma rotation_floor_val: "rotation_floor = Fin (- (6849057770659915 / 4503599627370496))"
  by (simp add: rotation_floor_def Math_PI_def round_eval)

lemma lower_val:
  "num_sub rotation_floor rotationSpeed = Fin (- (6871575768796767 / 4503599627370496))"
  by (simp add: rotation_floor_val rotationSpeed_val num_sub_def round_eval)

lemma just_above_floor:
  "round_double (- (6849057770659914 / 4503599627370496) - 5764607523034235 / 1152921504606846976)
     = Fin (- (3435787884398383 / 2251799813685248))"
  by (simp add: round_eval)

section \<open>One step of the hinge angle\<close>

text \<open>
  On binary64 values the step never increases the angle, and it keeps the angle above
  \<open>(-Math.PI / 2 + 0.05) - 0.005\<close>: a value above the floor is at least one unit in
  the last place above it, and rounding is monotone.
\<close>

lemma next_angle_Fin:
  "next_angle (Fin x) =
     (if - (6849057770659915 / 4503599627370496) < x
      then round_double (x - 5764607523034235 / 1152921504606846976) else Fin x)"
  by (simp add: next_angle_def rotation_floor_val rotationSpeed_val num_sub_def)

lemma next_angle_not_gt:
  assumes "wf_number v"
  shows "\<not> num_gt (next_angle v) v"
proof (cases v)
  case (Fin x)
  then have d: "round_double x = Fin x" using assms by (simp add: is_double_def)
  have "\<not> num_gt (round_double (x - 5764607523034235 / 1152921504606846976)) (round_double x)"
    by (rule round_double_mono) simp
  then show ?thesis using Fin d by (simp add: next_angle_Fin)
qed (simp_all add: next_angle_def rotation_floor_val rotationSpeed_val num_sub_def)

lemma next_angle_wf:
  assumes "wf_number v"
  shows "wf_number (next_angle v)"
proof (cases v)
  case (Fin x)
  show ?thesis
  proof (cases "next_angle v")
    case (Fin r)
    then show ?thesis
      using assms \<open>v = Fin x\<close> round_double_is_double
      by (auto simp: next_angle_Fin split: if_splits)
  qed simp_all
qed (simp_all add: next_angle_def rotation_floor_val rotationSpeed_val num_sub_def)

lemma above_floor_step:
  assumes "is_double x" "- (6849057770659915 / 4503599627370496) < x"
  shows "- (6849057770659914 / 4503599627370496) \<le> x"
proof (cases "x \<le> - 1")
  case True
  then obtain k :: int where k: "x = of_int k / 2 ^ 52" using is_double_grid_52 [OF assms(1)] by blast
  have "(of_int (- 6849057770659915) :: rat) / 2 ^ 52 < of_int k / 2 ^ 52"
    using assms(2) k by simp
  then have "(of_int (- 6849057770659915) :: rat) < of_int k"
    by (simp only: divide_less_cancel) simp
  then have "- 6849057770659915 < k" by (simp only: of_int_less_iff)
  then have "- 6849057770659914 \<le> k" by simp
  then have "(of_int (- 6849057770659914) :: rat) \<le> of_int k" by (simp only: of_int_le_iff)
  then have "(of_int (- 6849057770659914) :: rat) / 2 ^ 52 \<le> of_int k / 2 ^ 52"
    by (simp add: divide_right_mono)
  then show ?thesis using k by simp
next
  case False
  then show ?thesis by simp
qed

lemma round_double_not_NaN: "round_double x \<noteq> NaN"
  by (simp add: round_double_def round_to_def pack_def)

lemma next_angle_lower:
  assumes "wf_number v" "num_gt v (num_sub rotation_floor rotationSpeed)"
  shows "num_gt (next_angle v) (num_sub rotation_floor rotationSpeed)"
proof (cases v)
  case (Fin x)
  then have d: "is_double x" using assms(1) by simp
  show ?thesis
  proof (cases "- (6849057770659915 / 4503599627370496) < x")
    case True
    let ?s = "5764607523034235 / 1152921504606846976 :: rat"
    have "- (6849057770659914 / 4503599627370496) - ?s \<le> x - ?s"
      using above_floor_step [OF d True] by simp
    then have "\<not> num_gt (round_double (- (6849057770659914 / 4503599627370496) - ?s))
        (round_double (x - ?s))"
      by (rule round_double_mono)
    then have "\<not> num_gt (Fin (- (3435787884398383 / 2251799813685248))) (round_double (x - ?s))"
      unfolding just_above_floor .
    then show ?thesis
      using Fin True round_double_not_NaN [of "x - ?s"]
      by (cases "round_double (x - ?s)") (simp_all add: next_angle_Fin lower_val)
  next
    case False
    then show ?thesis using Fin assms(2) by (simp add: next_angle_Fin)
  qed
qed (use assms in \<open>simp_all add: next_angle_def rotation_floor_val rotationSpeed_val num_sub_def\<close>)

section \<open>The frame callback\<close>

lemma num_le_not_gt: "num_le a b \<Longrightarrow> \<not> num_gt a b"
  by (cases a; cases b) auto

lemma set_rotation_x_heap_only: "set_rotation_x r v s = s\<lparr>heap := heap (set_rotation_x r v s)\<rparr>"
  by (simp add: set_rotation_x_def)

lemma turn_heap_only: "turn i s = s\<lparr>heap := heap (turn i s)\<rparr>"
  by (simp add: turn_def set_rotation_x_def)

lemma sync_outer_heap_only: "sync_outer i s = s\<lparr>heap := heap (sync_outer i s)\<rparr>"
  by (simp add: sync_outer_def set_rotation_x_def split: option.splits)

lemma sync_screen_heap_only: "sync_screen i s = s\<lparr>heap := heap (sync_screen i s)\<rparr>"
  by (simp add: sync_screen_def set_rotation_x_def split: option.splits)

lemma attempt_rotation_heap_only: "attempt_rotation s = s\<lparr>heap := heap (attempt_rotation s)\<rparr>"
proof (cases "innerDisplay s")
  case None
  then show ?thesis by (simp add: attempt_rotation_def)
next
  case (Some i)
  have "attempt_rotation s = sync_screen i (sync_outer i (turn i s))"
    using Some by (simp add: attempt_rotation_def)
  also have "\<dots> = (sync_outer i (turn i s))\<lparr>heap := heap (sync_screen i (sync_outer i (turn i s)))\<rparr>"
    by (rule sync_screen_heap_only)
  also have "sync_outer i (turn i s) = (turn i s)\<lparr>heap := heap (sync_outer i (turn i s))\<rparr>"
    by (rule sync_outer_heap_only)
  also have "turn i s = s\<lparr>heap := heap (turn i s)\<rparr>"
    by (rule turn_heap_only)
  finally show ?thesis using Some by (simp add: attempt_rotation_def)
qed

lemma attempt_rotation_fields:
  "renderer (attempt_rotation s) = renderer s" "scene (attempt_rotation s) = scene s" "camera (attempt_rotation s) = camera s"
  "innerDisplay (attempt_rotation s) = innerDisplay s" "outerDisplay (attempt_rotation s) = outerDisplay s"
  "screen (attempt_rotation s) = screen s" "frameQueue (attempt_rotation s) = frameQueue s"
  "animationFrameId (attempt_rotation s) = animationFrameId s" "lastFrameId (attempt_rotation s) = lastFrameId s"
  "canvasRef (attempt_rotation s) = canvasRef s" "loadPending (attempt_rotation s) = loadPending s"
  "resizeListener (attempt_rotation s) = resizeListener s" "window (attempt_rotation s) = window s"
  "nextRef (attempt_rotation s) = nextRef s"
  by (subst attempt_rotation_heap_only, simp)+

lemma animate_live:
  "renderer s = Some r \<Longrightarrow> animate s = Inr (drawn (attempt_rotation (requestAnimationFrame s)))"
  by (simp add: animate_def render_def drawn_def attempt_rotation_fields requestAnimationFrame_def)

lemma animate_dead: "renderer s = None \<Longrightarrow> animate s = Inr s"
  by (simp add: animate_def)

lemma animate_total: "\<exists>s'. animate s = Inr s'"
  by (cases "renderer s") (simp_all add: animate_dead animate_live)

lemma drawn_fields:
  "heap (drawn s) = heap s" "innerDisplay (drawn s) = innerDisplay s"
  "outerDisplay (drawn s) = outerDisplay s" "screen (drawn s) = screen s"
  "frameQueue (drawn s) = frameQueue s" "scene (drawn s) = scene s" "camera (drawn s) = camera s"
  "animationFrameId (drawn s) = animationFrameId s" "lastFrameId (drawn s) = lastFrameId s"
  "(renderer (drawn s) = None) = (renderer s = None)"
  by (simp_all add: drawn_def split: option.splits)

lemma requestAnimationFrame_fields:
  "heap (requestAnimationFrame s) = heap s" "innerDisplay (requestAnimationFrame s) = innerDisplay s"
  "outerDisplay (requestAnimationFrame s) = outerDisplay s" "screen (requestAnimationFrame s) = screen s"
  "renderer (requestAnimationFrame s) = renderer s" "scene (requestAnimationFrame s) = scene s"
  "camera (requestAnimationFrame s) = camera s"
  by (simp_all add: requestAnimationFrame_def)

lemma animate_handles:
  assumes "animate s = Inr s'"
  shows "innerDisplay s' = innerDisplay s \<and> outerDisplay s' = outerDisplay s \<and> screen s' = screen s
    \<and> (renderer s' = None) = (renderer s = None)"
proof -
  show "innerDisplay s' = innerDisplay s \<and> outerDisplay s' = outerDisplay s \<and> screen s' = screen s
    \<and> (renderer s' = None) = (renderer s = None)"
  proof (cases "renderer s")
    case None
    then show ?thesis using assms by (simp add: animate_dead)
  next
    case (Some r)
    then have "s' = drawn (attempt_rotation (requestAnimationFrame s))"
      using assms by (simp add: animate_live)
    then show ?thesis
      using Some by (simp add: drawn_fields attempt_rotation_fields requestAnimationFrame_fields)
  qed
qed

lemma attempt_rotation_linkage:
  assumes "innerDisplay s = Some i" "outerDisplay s = Some j" "screen s = Some k"
  shows "rotation_x (heap (attempt_rotation s) j) = rotation_x (heap (attempt_rotation s) i)"
    and "rotation_x (heap (attempt_rotation s) k) = rotation_x (heap (attempt_rotation s) i)"
  using assms
  by (simp_all add: attempt_rotation_def sync_screen_def sync_outer_def turn_def set_rotation_x_def)

lemma animate_linkage:
  assumes "renderer s \<noteq> None" "innerDisplay s = Some i" "outerDisplay s = Some j" "screen s = Some k"
  shows "\<exists>s'. animate s = Inr s' \<and> rotation_x (heap s' j) = rotation_x (heap s' i)
            \<and> rotation_x (heap s' k) = rotation_x (heap s' i)"
proof -
  obtain r where r: "renderer s = Some r" using assms(1) by auto
  let ?t = "requestAnimationFrame s"
  have h: "innerDisplay ?t = Some i" "outerDisplay ?t = Some j" "screen ?t = Some k"
    using assms by (simp_all add: requestAnimationFrame_fields)
  show ?thesis
    using attempt_rotation_linkage [OF h] by (simp add: animate_live [OF r] drawn_fields)
qed

lemma turn_at_floor:
  "\<not> num_gt (rotation_x (heap s i)) rotation_floor \<Longrightarrow> turn i s = s"
  by (simp add: turn_def)

lemma attempt_rotation_at_floor:
  assumes "innerDisplay s = Some i" "\<not> num_gt (rotation_x (heap s i)) rotation_floor"
  shows "rotation_x (heap (attempt_rotation s) i) = rotation_x (heap s i)"
  using assms
  by (simp add: attempt_rotation_def turn_at_floor sync_screen_def sync_outer_def set_rotation_x_def
      split: option.splits)

lemma animate_at_floor:
  assumes "innerDisplay s = Some i" "\<not> num_gt (rotation_x (heap s i)) rotation_floor"
    "animate s = Inr s'"
  shows "rotation_x (heap s' i) = rotation_x (heap s i)"
proof (cases "renderer s")
  case None
  then show ?thesis using assms by (simp add: animate_dead)
next
  case (Some r)
  let ?t = "requestAnimationFrame s"
  have "innerDisplay ?t = Some i" "\<not> num_gt (rotation_x (heap ?t i)) rotation_floor"
    using assms by (simp_all add: requestAnimationFrame_fields)
  from attempt_rotation_at_floor [OF this] show ?thesis
    using assms Some by (auto simp: animate_live drawn_fields requestAnimationFrame_fields)
qed

lemma visit_fields:
  "renderer (visit r s) = renderer s" "scene (visit r s) = scene s" "camera (visit r s) = camera s"
  "frameQueue (visit r s) = frameQueue s" "animationFrameId (visit r s) = animationFrameId s"
  "lastFrameId (visit r s) = lastFrameId s"
  by (simp_all add: visit_def)

lemma fold_visit_fields:
  "renderer (fold visit rs s) = renderer s \<and> scene (fold visit rs s) = scene s
   \<and> camera (fold visit rs s) = camera s \<and> frameQueue (fold visit rs s) = frameQueue s
   \<and> animationFrameId (fold visit rs s) = animationFrameId s
   \<and> lastFrameId (fold visit rs s) = lastFrameId s"
  by (induction rs arbitrary: s) (simp_all add: visit_fields)

lemma add_model_fields:
  "renderer (add_model m s) = renderer s" "camera (add_model m s) = camera s"
  "frameQueue (add_model m s) = frameQueue s" "(scene (add_model m s) = None) = (scene s = None)"
  "animationFrameId (add_model m s) = animationFrameId s" "lastFrameId (add_model m s) = lastFrameId s"
  by (simp_all add: add_model_def split: option.splits)

lemma onUnmounted_refs:
  "renderer (onUnmounted s) = None" "scene (onUnmounted s) = None" "camera (onUnmounted s) = None"
  "innerDisplay (onUnmounted s) = None" "outerDisplay (onUnmounted s) = None"
  "screen (onUnmounted s) = None" "canvasRef (onUnmounted s) = None"
  by (simp_all add: onUnmounted_def clear_refs_def)

lemma onLoad_dead:
  assumes "renderer s = None"
  shows "onLoad model s = Inr (add_model model (fold visit (traverse model) s))"
  using assms by (simp add: onLoad_def animate_dead add_model_fields fold_visit_fields)

lemma handleResize_fields:
  "(renderer (handleResize s) = None) = (renderer s = None)" "heap (handleResize s) = heap s"
  "scene (handleResize s) = scene s" "frameQueue (handleResize s) = frameQueue s"
  "animationFrameId (handleResize s) = animationFrameId s" "lastFrameId (handleResize s) = lastFrameId s"
  by (simp_all add: handleResize_def split: option.splits)

lemma fire_keeps_dead:
  assumes "renderer s = None" "ev \<noteq> Mounted"
  shows "\<exists>s'. fire ev s = Inr s' \<and> renderer s' = None"
proof (cases ev)
  case (LoadSuccess model)
  then show ?thesis
    using assms by (simp add: onLoad_dead add_model_fields fold_visit_fields)
next
  case Frame
  then show ?thesis using assms by (simp add: animate_dead split: list.splits)
qed (use assms in \<open>simp_all add: onUnmounted_refs handleResize_fields resize_window_def onError_def\<close>)

lemma run_keeps_dead:
  assumes "renderer s = None" "Mounted \<notin> set evs"
  shows "\<exists>s'. run evs s = Inr s' \<and> renderer s' = None"
  using assms
proof (induction evs arbitrary: s)
  case Nil
  then show ?case by simp
next
  case (Cons ev evs)
  then obtain s1 where "fire ev s = Inr s1" "renderer s1 = None"
    using fire_keeps_dead [of s ev] by auto
  then show ?case using Cons by simp
qed

section \<open>Events without a successful load\<close>








section \<open>The traversal of the loaded model\<close>

lemma visit_kind_name:
  "kind (heap (visit r s) x) = kind (heap s x)" "name (heap (visit r s) x) = name (heap s x)"
  by (simp_all add: visit_def)

lemma fold_visit_kind_name:
  "kind (heap (fold visit rs s) x) = kind (heap s x) \<and> name (heap (fold visit rs s) x) = name (heap s x)"
  by (induction rs arbitrary: s) (simp_all add: visit_kind_name)

lemma visit_handles:
  "innerDisplay (visit r s) =
     (if kind (heap s r) = Mesh \<and> name (heap s r) = ''laptop_inner_display'' then Some r
      else innerDisplay s)"
  "outerDisplay (visit r s) =
     (if kind (heap s r) = Mesh \<and> name (heap s r) = ''laptop_outer_display'' then Some r
      else outerDisplay s)"
  "screen (visit r s) =
     (if kind (heap s r) = Mesh \<and> name (heap s r) = ''laptop_screen'' then Some r
      else screen s)"
  by (auto simp: visit_def)

lemma fold_visit_inner:
  "innerDisplay (fold visit rs s) =
     (if named_meshes ''laptop_inner_display'' rs s = [] then innerDisplay s
      else Some (last (named_meshes ''laptop_inner_display'' rs s)))"
  by (induction rs rule: rev_induct)
    (simp_all add: named_meshes_def visit_handles fold_visit_kind_name)

lemma fold_visit_outer:
  "outerDisplay (fold visit rs s) =
     (if named_meshes ''laptop_outer_display'' rs s = [] then outerDisplay s
      else Some (last (named_meshes ''laptop_outer_display'' rs s)))"
  by (induction rs rule: rev_induct)
    (simp_all add: named_meshes_def visit_handles fold_visit_kind_name)

lemma fold_visit_screen:
  "screen (fold visit rs s) =
     (if named_meshes ''laptop_screen'' rs s = [] then screen s
      else Some (last (named_meshes ''laptop_screen'' rs s)))"
  by (induction rs rule: rev_induct)
    (simp_all add: named_meshes_def visit_handles fold_visit_kind_name)

section \<open>The hinge angle across frames\<close>

lemma attempt_rotation_angle:
  assumes "innerDisplay s = Some i"
  shows "rotation_x (heap (attempt_rotation s) i) = next_angle (rotation_x (heap s i))"
  using assms
  by (simp add: attempt_rotation_def sync_screen_def sync_outer_def turn_def set_rotation_x_def
      next_angle_def split: option.splits)

lemma animate_angle:
  assumes "renderer s \<noteq> None" "innerDisplay s = Some i" "animate s = Inr s'"
  shows "rotation_x (heap s' i) = next_angle (rotation_x (heap s i))"
proof -
  obtain r where r: "renderer s = Some r" using assms(1) by auto
  let ?t = "requestAnimationFrame s"
  have "innerDisplay ?t = Some i" using assms(2) by (simp add: requestAnimationFrame_fields)
  from attempt_rotation_angle [OF this] show ?thesis
    using assms(3) by (auto simp: animate_live [OF r] drawn_fields requestAnimationFrame_fields)
qed

lemma angle_after_live:
  assumes "renderer s \<noteq> None" "innerDisplay s = Some i"
  shows "angle_after n s = Some ((next_angle ^^ n) (rotation_x (heap s i)))"
  using assms
proof (induction n arbitrary: s)
  case 0
  then show ?case by (simp add: angle_after_def inner_angle_def)
next
  case (Suc n)
  obtain s1 where s1: "animate s = Inr s1" using animate_total by blast
  have h: "renderer s1 \<noteq> None" "innerDisplay s1 = Some i"
    using animate_handles [OF s1] Suc.prems by simp_all
  have "angle_after (Suc n) s = angle_after n s1" using s1 by (simp add: angle_after_def)
  also have "\<dots> = Some ((next_angle ^^ n) (rotation_x (heap s1 i)))" using h by (rule Suc.IH)
  also have "rotation_x (heap s1 i) = next_angle (rotation_x (heap s i))"
    using Suc.prems s1 by (rule animate_angle)
  finally show ?case by (simp add: funpow_swap1)
qed

lemma frames_dead: "renderer s = None \<Longrightarrow> frames n s = Inr s"
  by (induction n) (simp_all add: animate_dead)

lemma angle_after_dead:
  assumes "renderer s = None"
  shows "angle_after n s = inner_angle s"
  using assms by (simp add: angle_after_def frames_dead)

lemma funpow_wf: "wf_number v \<Longrightarrow> wf_number ((next_angle ^^ n) v)"
  by (induction n) (simp_all add: next_angle_wf)

lemma funpow_not_gt:
  "wf_number v \<Longrightarrow> \<not> num_gt ((next_angle ^^ Suc n) v) ((next_angle ^^ n) v)"
  using next_angle_not_gt [OF funpow_wf] by simp

lemma funpow_lower:
  assumes "wf_number v" "num_gt v (num_sub rotation_floor rotationSpeed)"
  shows "num_gt ((next_angle ^^ n) v) (num_sub rotation_floor rotationSpeed)"
  using assms by (induction n) (simp_all add: next_angle_lower funpow_wf)

lemma num_gt_irrefl: "\<not> num_gt v v"
  by (cases v) simp_all

section \<open>The first 305 frames from angle 0\<close>

text \<open>
  The angle from 0, ten frames at a time. The 305th frame is the first to end below the
  floor.
\<close>

lemma funpow_5: "(f ^^ 5) x = f (f (f (f (f x))))"
  by (simp add: eval_nat_numeral)

lemma funpow_10: "(f ^^ 10) x = f (f (f (f (f (f (f (f (f (f x)))))))))"
  by (simp add: eval_nat_numeral)

lemma funpow_30:
  "(f ^^ 30) x =
     f (f (f (f (f (f (f (f (f (f (f (f (f (f (f (f (f (f (f (f (f (f (f (f (f (f (f (f (f (f
       x)))))))))))))))))))))))))))))"
  by (simp add: eval_nat_numeral)

lemma frames_1_to_100:
  "(next_angle ^^ 10) (Fin 0) = Fin (- (7205759403792793 / 144115188075855872))"
  "(next_angle ^^ 10) (Fin (- (7205759403792793 / 144115188075855872))) = Fin (- (7205759403792795 / 72057594037927936))"
  "(next_angle ^^ 10) (Fin (- (7205759403792795 / 72057594037927936))) = Fin (- (5404319552844597 / 36028797018963968))"
  "(next_angle ^^ 10) (Fin (- (5404319552844597 / 36028797018963968))) = Fin (- (7205759403792797 / 36028797018963968))"
  "(next_angle ^^ 10) (Fin (- (7205759403792797 / 36028797018963968))) = Fin (- (2251799813685249 / 9007199254740992))"
  "(next_angle ^^ 10) (Fin (- (2251799813685249 / 9007199254740992))) = Fin (- (2702159776422299 / 9007199254740992))"
  "(next_angle ^^ 10) (Fin (- (2702159776422299 / 9007199254740992))) = Fin (- (3152519739159349 / 9007199254740992))"
  "(next_angle ^^ 10) (Fin (- (3152519739159349 / 9007199254740992))) = Fin (- (3602879701896399 / 9007199254740992))"
  "(next_angle ^^ 10) (Fin (- (3602879701896399 / 9007199254740992))) = Fin (- (4053239664633449 / 9007199254740992))"
  "(next_angle ^^ 10) (Fin (- (4053239664633449 / 9007199254740992))) = Fin (- (4503599627370499 / 9007199254740992))"
  by (simp_all add: funpow_10 next_angle_Fin round_eval)

lemma frames_101_to_200:
  "(next_angle ^^ 10) (Fin (- (4503599627370499 / 9007199254740992))) = Fin (- (4953959590107549 / 9007199254740992))"
  "(next_angle ^^ 10) (Fin (- (4953959590107549 / 9007199254740992))) = Fin (- (5404319552844599 / 9007199254740992))"
  "(next_angle ^^ 10) (Fin (- (5404319552844599 / 9007199254740992))) = Fin (- (5854679515581649 / 9007199254740992))"
  "(next_angle ^^ 10) (Fin (- (5854679515581649 / 9007199254740992))) = Fin (- (6305039478318699 / 9007199254740992))"
  "(next_angle ^^ 10) (Fin (- (6305039478318699 / 9007199254740992))) = Fin (- (6755399441055749 / 9007199254740992))"
  "(next_angle ^^ 10) (Fin (- (6755399441055749 / 9007199254740992))) = Fin (- (7205759403792799 / 9007199254740992))"
  "(next_angle ^^ 10) (Fin (- (7205759403792799 / 9007199254740992))) = Fin (- (7656119366529849 / 9007199254740992))"
  "(next_angle ^^ 10) (Fin (- (7656119366529849 / 9007199254740992))) = Fin (- (8106479329266899 / 9007199254740992))"
  "(next_angle ^^ 10) (Fin (- (8106479329266899 / 9007199254740992))) = Fin (- (8556839292003949 / 9007199254740992))"
  "(next_angle ^^ 10) (Fin (- (8556839292003949 / 9007199254740992))) = Fin (- (4503599627370499 / 4503599627370496))"
  by (simp_all add: funpow_10 next_angle_Fin round_eval)

lemma frames_201_to_300:
  "(next_angle ^^ 10) (Fin (- (4503599627370499 / 4503599627370496))) = Fin (- (4728779608739019 / 4503599627370496))"
  "(next_angle ^^ 10) (Fin (- (4728779608739019 / 4503599627370496))) = Fin (- (4953959590107539 / 4503599627370496))"
  "(next_angle ^^ 10) (Fin (- (4953959590107539 / 4503599627370496))) = Fin (- (5179139571476059 / 4503599627370496))"
  "(next_angle ^^ 10) (Fin (- (5179139571476059 / 4503599627370496))) = Fin (- (5404319552844579 / 4503599627370496))"
  "(next_angle ^^ 10) (Fin (- (5404319552844579 / 4503599627370496))) = Fin (- (5629499534213099 / 4503599627370496))"
  "(next_angle ^^ 10) (Fin (- (5629499534213099 / 4503599627370496))) = Fin (- (5854679515581619 / 4503599627370496))"
  "(next_angle ^^ 10) (Fin (- (5854679515581619 / 4503599627370496))) = Fin (- (6079859496950139 / 4503599627370496))"
  "(next_angle ^^ 10) (Fin (- (6079859496950139 / 4503599627370496))) = Fin (- (6305039478318659 / 4503599627370496))"
  "(next_angle ^^ 10) (Fin (- (6305039478318659 / 4503599627370496))) = Fin (- (6530219459687179 / 4503599627370496))"
  "(next_angle ^^ 10) (Fin (- (6530219459687179 / 4503599627370496))) = Fin (- (6755399441055699 / 4503599627370496))"
  by (simp_all add: funpow_10 next_angle_Fin round_eval)

lemma frames_301_to_305:
  "(next_angle ^^ 5) (Fin (- (6755399441055699 / 4503599627370496))) = Fin (- (6867989431739959 / 4503599627370496))"
  by (simp add: funpow_5 next_angle_Fin round_eval)

lemma one_frame: "next_angle (Fin 0) = num_neg (lit (5 / 1000))"
  by (simp add: next_angle_Fin round_eval)

lemma hundred_frames: "(next_angle ^^ 100) (Fin 0) = Fin (- (4503599627370499 / 9007199254740992))"
proof -
  have "(next_angle ^^ 100) (Fin 0) = ((next_angle ^^ 10) ^^ 10) (Fin 0)"
    by (simp add: funpow_mult)
  also have "\<dots> = Fin (- (4503599627370499 / 9007199254740992))"
    unfolding funpow_10 [of "next_angle ^^ 10"] by (simp only: frames_1_to_100)
  finally show ?thesis .
qed

lemma frames_305: "(next_angle ^^ 305) (Fin 0) = Fin (- (6867989431739959 / 4503599627370496))"
proof -
  have "(305::nat) = 5 + 10 * 30" by simp
  then have "(next_angle ^^ 305) (Fin 0) = (next_angle ^^ 5) (((next_angle ^^ 10) ^^ 30) (Fin 0))"
    by (simp only: funpow_add funpow_mult o_apply)
  also have "((next_angle ^^ 10) ^^ 30) (Fin 0) = Fin (- (6755399441055699 / 4503599627370496))"
    unfolding funpow_30 [of "next_angle ^^ 10"]
    by (simp only: frames_1_to_100 frames_101_to_200 frames_201_to_300)
  also have "(next_angle ^^ 5) (Fin (- (6755399441055699 / 4503599627370496))) = Fin (- (6867989431739959 / 4503599627370496))"
    by (rule frames_301_to_305)
  finally show ?thesis .
qed

section \<open>The sample component\<close>

lemma laptop_at_fields:
  "renderer (laptop_at x) \<noteq> None" "innerDisplay (laptop_at x) = Some 10"
  "rotation_x (heap (laptop_at x) 10) = x"
  by (simp_all add: laptop_at_def set_rotation_x_def running_laptop_def mounted_laptop_def
      initThree_def created_def)

lemma lit_152: "lit (- (152 / 100)) = Fin (- (3422735716801577 / 2251799813685248))"
  by (simp add: round_eval)

lemma below_floor_after_one: "next_angle (Fin (- (3422735716801577 / 2251799813685248))) = Fin (- (3433994715870003 / 2251799813685248))"
  by (simp add: next_angle_Fin round_eval)

section \<open>The handles after the success callback\<close>

lemma add_model_handles:
  "innerDisplay (add_model m s) = innerDisplay s" "outerDisplay (add_model m s) = outerDisplay s"
  "screen (add_model m s) = screen s"
  by (simp_all add: add_model_def split: option.splits)

lemma onLoad_handles:
  "\<exists>s'. onLoad model s = Inr s'
     \<and> innerDisplay s' = innerDisplay (fold visit (traverse model) s)
     \<and> outerDisplay s' = outerDisplay (fold visit (traverse model) s)
     \<and> screen s' = screen (fold visit (traverse model) s)"
proof -
  let ?t = "add_model model (fold visit (traverse model) s)"
  obtain s' where s': "animate ?t = Inr s'" using animate_total by blast
  then show ?thesis
    using animate_handles [OF s'] by (simp add: onLoad_def add_model_handles)
qed

section \<open>The claims\<close>

subsection \<open>C1: the three parts turn together\<close>

text \<open>
  Claim C1. Once the three handles are set and the renderer is live, after every run of the
  frame callback (the first one included) the outer display and the screen have the inner
  display's \<open>rotation.x\<close>.
\<close>

theorem linkage_after_every_frame:
  assumes "renderer s \<noteq> None" "innerDisplay s = Some i" "outerDisplay s = Some j" "screen s = Some k"
  shows "\<exists>s'. frames (Suc n) s = Inr s' \<and> rotation_x (heap s' j) = rotation_x (heap s' i)
            \<and> rotation_x (heap s' k) = rotation_x (heap s' i)"
  using assms
proof (induction n arbitrary: s)
  case 0
  then show ?case using animate_linkage [of s i j k] by auto
next
  case (Suc n)
  obtain s1 where s1: "animate s = Inr s1" using animate_total by blast
  have "renderer s1 \<noteq> None" "innerDisplay s1 = Some i" "outerDisplay s1 = Some j" "screen s1 = Some k"
    using animate_handles [OF s1] Suc.prems by simp_all
  from Suc.IH [OF this] show ?case using s1 by simp
qed

text \<open>
  The running sample component, three frames on.
\<close>

theorem linkage_after_every_frame_witness:
  "renderer running_laptop \<noteq> None \<and> innerDisplay running_laptop = Some 10
   \<and> outerDisplay running_laptop = Some 11 \<and> screen running_laptop = Some 12
   \<and> (\<exists>s'. frames (Suc 2) running_laptop = Inr s'
          \<and> rotation_x (heap s' 11) = rotation_x (heap s' 10)
          \<and> rotation_x (heap s' 12) = rotation_x (heap s' 10))"
  using linkage_after_every_frame [of running_laptop 10 11 12 2]
  by (simp add: running_laptop_def mounted_laptop_def initThree_def created_def)

subsection \<open>C2: the angle never increases, and its lower bound\<close>

text \<open>
  Claim C2 says the angle stays at or above \<open>-Math.PI / 2 + 0.05\<close> from any initial
  rotation. From \<open>-1.52\<close>, which is above that floor, one frame leads to
  \<open>-1.525\<close>, below it: the guard of line 149 tests the angle before the step, not
  after. From 0 the same happens at the 305th frame, which ends at
  \<open>-1.5249999999999895\<close>.
\<close>

theorem floor_undershot:
  "angle_after 1 (laptop_at (lit (- (152 / 100)))) = Some (Fin (- (3433994715870003 / 2251799813685248)))
   \<and> \<not> num_le rotation_floor (Fin (- (3433994715870003 / 2251799813685248)))
   \<and> angle_after 305 (laptop_at (Fin 0)) = Some (Fin (- (6867989431739959 / 4503599627370496)))
   \<and> \<not> num_le rotation_floor (Fin (- (6867989431739959 / 4503599627370496)))"
proof -
  have "angle_after 1 (laptop_at (lit (- (152 / 100)))) = Some (Fin (- (3433994715870003 / 2251799813685248)))"
    unfolding lit_152
    using below_floor_after_one
    by (simp add: angle_after_live [OF laptop_at_fields(1,2)] laptop_at_fields(3))
  moreover have "angle_after 305 (laptop_at (Fin 0)) = Some (Fin (- (6867989431739959 / 4503599627370496)))"
    using frames_305 by (simp only: angle_after_live [OF laptop_at_fields(1,2)] laptop_at_fields(3))
  moreover have "\<not> num_le rotation_floor (Fin (- (3433994715870003 / 2251799813685248)))"
    "\<not> num_le rotation_floor (Fin (- (6867989431739959 / 4503599627370496)))"
    by (simp_all add: rotation_floor_val)
  ultimately show ?thesis by (simp only: simp_thms)
qed

text \<open>
  Claim C2 as amended. From any initial rotation that is a Number, the angle after a frame is
  never greater than the angle before it; and when the initial rotation is greater than
  \<open>(-Math.PI / 2 + 0.05) - 0.005\<close>, so is the angle after every frame.
\<close>

theorem rotation_never_increases:
  assumes "innerDisplay s = Some i" "wf_number (rotation_x (heap s i))"
  shows "\<exists>a b. angle_after n s = Some a \<and> angle_after (Suc n) s = Some b \<and> \<not> num_gt b a
           \<and> (num_gt (rotation_x (heap s i)) (num_sub rotation_floor rotationSpeed)
                \<longrightarrow> num_gt b (num_sub rotation_floor rotationSpeed))"
proof (cases "renderer s")
  case None
  then show ?thesis
    using assms(1) by (simp add: angle_after_dead inner_angle_def num_gt_irrefl)
next
  case (Some r)
  then have live: "renderer s \<noteq> None" by simp
  show ?thesis
    using funpow_not_gt [OF assms(2), of n] funpow_lower [OF assms(2), of "Suc n"]
    by (simp add: angle_after_live [OF live assms(1)])
qed

text \<open>
  The sample component starting at angle 0, between the seventh and the eighth frame.
\<close>

theorem rotation_never_increases_witness:
  "innerDisplay (laptop_at (Fin 0)) = Some 10 \<and> wf_number (rotation_x (heap (laptop_at (Fin 0)) 10))
   \<and> num_gt (rotation_x (heap (laptop_at (Fin 0)) 10)) (num_sub rotation_floor rotationSpeed)
   \<and> (\<exists>a b. angle_after 7 (laptop_at (Fin 0)) = Some a \<and> angle_after (Suc 7) (laptop_at (Fin 0)) = Some b
          \<and> \<not> num_gt b a \<and> num_gt b (num_sub rotation_floor rotationSpeed))"
proof -
  have "wf_number (rotation_x (heap (laptop_at (Fin 0)) 10))"
    by (simp add: laptop_at_fields is_double_def round_double_def)
  moreover have "num_gt (rotation_x (heap (laptop_at (Fin 0)) 10)) (num_sub rotation_floor rotationSpeed)"
    by (simp add: laptop_at_fields lower_val)
  ultimately show ?thesis
    using rotation_never_increases [of "laptop_at (Fin 0)" 10 7] laptop_at_fields(2) by blast
qed

subsection \<open>C3: the angle after one frame and after a hundred\<close>

text \<open>
  Claim C3 says the angle is \<open>-0.5\<close> after 100 frames from 0. It is not: each of the
  hundred subtractions is rounded.
\<close>

theorem hundred_frames_not_half:
  "angle_after 100 (laptop_at (Fin 0)) \<noteq> Some (Fin (- (1 / 2)))"
  using hundred_frames by (simp add: angle_after_live [OF laptop_at_fields(1,2)] laptop_at_fields(3))

text \<open>
  Claim C3 as amended. From angle 0, with the renderer live, the angle is \<open>-0.005\<close>
  after exactly one frame, and after exactly 100 frames it is \<open>-0.5\<close> less three units
  of \<open>2 ^ -53\<close>, that is \<open>-0.5000000000000003\<close>.
\<close>

theorem rotation_after_frames:
  assumes "renderer s \<noteq> None" "innerDisplay s = Some i" "rotation_x (heap s i) = Fin 0"
  shows "angle_after 1 s = Some (num_neg (lit (5 / 1000)))
       \<and> angle_after 100 s = Some (Fin (- (1 / 2) - 3 / 2 ^ 53))"
  using one_frame hundred_frames by (simp add: angle_after_live [OF assms(1,2)] assms(3))

text \<open>
  The sample component starting at angle 0.
\<close>

theorem rotation_after_frames_witness:
  "renderer (laptop_at (Fin 0)) \<noteq> None \<and> innerDisplay (laptop_at (Fin 0)) = Some 10
   \<and> rotation_x (heap (laptop_at (Fin 0)) 10) = Fin 0
   \<and> angle_after 1 (laptop_at (Fin 0)) = Some (num_neg (lit (5 / 1000)))
   \<and> angle_after 100 (laptop_at (Fin 0)) = Some (Fin (- (1 / 2) - 3 / 2 ^ 53))"
  using rotation_after_frames [of "laptop_at (Fin 0)" 10] by (simp add: laptop_at_fields)

subsection \<open>C4: at or below the floor nothing moves\<close>

text \<open>
  Claim C4. When the inner display's angle is at or below \<open>-Math.PI / 2 + 0.05\<close>, any
  number of further frames leaves it as it is.
\<close>

theorem unchanged_at_floor:
  assumes "innerDisplay s = Some i" "num_le (rotation_x (heap s i)) rotation_floor"
  shows "\<exists>s'. frames n s = Inr s' \<and> rotation_x (heap s' i) = rotation_x (heap s i)"
  using assms
proof (induction n arbitrary: s)
  case 0
  then show ?case by simp
next
  case (Suc n)
  obtain s1 where s1: "animate s = Inr s1" using animate_total by blast
  have ng: "\<not> num_gt (rotation_x (heap s i)) rotation_floor"
    using Suc.prems(2) by (rule num_le_not_gt)
  have eq: "rotation_x (heap s1 i) = rotation_x (heap s i)"
    using animate_at_floor [OF Suc.prems(1) ng s1] .
  have "innerDisplay s1 = Some i" using animate_handles [OF s1] Suc.prems(1) by simp
  moreover have "num_le (rotation_x (heap s1 i)) rotation_floor" using eq Suc.prems(2) by simp
  ultimately obtain s' where "frames n s1 = Inr s'" "rotation_x (heap s' i) = rotation_x (heap s1 i)"
    using Suc.IH by blast
  then show ?case using s1 eq by simp
qed

text \<open>
  The sample component at angle \<open>-2\<close>, three frames on.
\<close>

theorem unchanged_at_floor_witness:
  "innerDisplay (laptop_at (Fin (- 2))) = Some 10
   \<and> num_le (rotation_x (heap (laptop_at (Fin (- 2))) 10)) rotation_floor
   \<and> (\<exists>s'. frames 3 (laptop_at (Fin (- 2))) = Inr s' \<and> rotation_x (heap s' 10) = Fin (- 2))"
proof -
  have "num_le (rotation_x (heap (laptop_at (Fin (- 2))) 10)) rotation_floor"
    by (simp add: laptop_at_fields rotation_floor_val)
  then show ?thesis
    using unchanged_at_floor [of "laptop_at (Fin (- 2))" 10 3] laptop_at_fields(2,3) by auto
qed

subsection \<open>C5: a frame that fires after teardown\<close>

text \<open>
  Claim C5. Whatever happens after a teardown, short of a new mount, no event fails, and in
  the state reached a run of the frame callback returns the state as it found it: no object
  is written, no frame is requested.
\<close>

theorem queued_frame_after_teardown:
  assumes "Mounted \<notin> set evs"
  shows "\<exists>s'. run evs (onUnmounted s) = Inr s' \<and> animate s' = Inr s'"
  using run_keeps_dead [OF onUnmounted_refs(1) assms, of s] by (auto simp: animate_dead)

text \<open>
  The running sample component, torn down, then resized; then its load succeeds and a frame
  tick arrives.
\<close>

theorem queued_frame_after_teardown_witness:
  "Mounted \<notin> set [Resize (Fin 1200) (Fin 800), LoadSuccess laptop_model, Frame]
   \<and> (\<exists>s'. run [Resize (Fin 1200) (Fin 800), LoadSuccess laptop_model, Frame]
              (onUnmounted running_laptop) = Inr s'
          \<and> animate s' = Inr s')"
  using queued_frame_after_teardown
    [of "[Resize (Fin 1200) (Fin 800), LoadSuccess laptop_model, Frame]" running_laptop]
  by simp

subsection \<open>C6: a load that fails\<close>



subsection \<open>C7: resizing the window\<close>

text \<open>
  Claim C7. With camera and renderer in place and the listener registered, a resize to width
  \<open>w\<close> and height \<open>h\<close> leaves the camera with aspect \<open>w / h\<close>, its projection
  updated to it, and the renderer with size \<open>w\<close> by \<open>h\<close>; nothing was drawn in
  between.
\<close>

theorem resize_updates_camera_and_renderer:
  assumes "camera s = Some c" "renderer s = Some r" "resizeListener s"
  shows "\<exists>s'. fire (Resize w h) s = Inr s'
           \<and> map_option aspect (camera s') = Some (num_div w h)
           \<and> map_option projection_aspect (camera s') = Some (num_div w h)
           \<and> map_option width (renderer s') = Some w
           \<and> map_option height (renderer s') = Some h
           \<and> map_option drawCalls (renderer s') = Some (drawCalls r)"
  using assms by (simp add: handleResize_def resize_window_def)

text \<open>
  From 800 by 600 to 1200 by 800: the aspect becomes 1.5.
\<close>

theorem resize_updates_camera_and_renderer_witness:
  "camera mounted_laptop = Some (new_camera laptop_window)
   \<and> renderer mounted_laptop = Some (new_renderer 0 laptop_window)
   \<and> resizeListener mounted_laptop
   \<and> innerWidth (window mounted_laptop) = Fin 800 \<and> innerHeight (window mounted_laptop) = Fin 600
   \<and> (\<exists>s'. fire (Resize (Fin 1200) (Fin 800)) mounted_laptop = Inr s'
          \<and> map_option aspect (camera s') = Some (Fin (3 / 2))
          \<and> map_option projection_aspect (camera s') = Some (Fin (3 / 2))
          \<and> map_option width (renderer s') = Some (Fin 1200)
          \<and> map_option height (renderer s') = Some (Fin 800)
          \<and> map_option drawCalls (renderer s') = Some 0)"
proof -
  have h: "camera mounted_laptop = Some (new_camera laptop_window)"
    "renderer mounted_laptop = Some (new_renderer 0 laptop_window)" "resizeListener mounted_laptop"
    "innerWidth (window mounted_laptop) = Fin 800" "innerHeight (window mounted_laptop) = Fin 600"
    by (simp_all add: mounted_laptop_def initThree_def created_def laptop_window_def)
  have d: "num_div (Fin 1200) (Fin 800) = Fin (3 / 2)" by (simp add: round_eval)
  have n: "drawCalls (new_renderer 0 laptop_window) = 0" by (simp add: new_renderer_def)
  show ?thesis
    using resize_updates_camera_and_renderer [OF h(1,2,3), of "Fin 1200" "Fin 800"] h d n
    by simp
qed

subsection \<open>C8: names that match several meshes or none\<close>

text \<open>
  Claim C8. The success callback returns normally whatever the names are, and in the state
  it returns each handle refers to the last mesh, in traversal order, that bears its name,
  and is what it was before when no mesh does; the traversal alone leaves the handles so.
  An absent inner display makes the rotation step do nothing at all; an absent outer
  display or screen makes its copy step do nothing.
\<close>

theorem loader_records_last_match:
  "(\<exists>s'. onLoad model s = Inr s'
      \<and> innerDisplay s' = last_match ''laptop_inner_display'' model s (innerDisplay s)
      \<and> outerDisplay s' = last_match ''laptop_outer_display'' model s (outerDisplay s)
      \<and> screen s' = last_match ''laptop_screen'' model s (screen s))
   \<and> innerDisplay (fold visit (traverse model) s)
     = last_match ''laptop_inner_display'' model s (innerDisplay s)
   \<and> outerDisplay (fold visit (traverse model) s)
     = last_match ''laptop_outer_display'' model s (outerDisplay s)
   \<and> screen (fold visit (traverse model) s)
     = last_match ''laptop_screen'' model s (screen s)
   \<and> (innerDisplay s = None \<longrightarrow> attempt_rotation s = s)
   \<and> (outerDisplay s = None \<longrightarrow> sync_outer i s = s)
   \<and> (screen s = None \<longrightarrow> sync_screen i s = s)"
  using onLoad_handles [of model s]
  by (simp add: last_match_def fold_visit_inner fold_visit_outer fold_visit_screen
      attempt_rotation_def sync_outer_def sync_screen_def)

text \<open>
  The sample model: the second of the two inner displays is recorded and the screen stays
  absent.
\<close>

theorem loader_records_last_match_witness:
  "(\<exists>s'. onLoad laptop_model mounted_laptop = Inr s'
      \<and> innerDisplay s' = Some 13 \<and> outerDisplay s' = Some 11 \<and> screen s' = None)
   \<and> innerDisplay (fold visit (traverse laptop_model) mounted_laptop) = Some 13
   \<and> outerDisplay (fold visit (traverse laptop_model) mounted_laptop) = Some 11
   \<and> screen (fold visit (traverse laptop_model) mounted_laptop) = None
   \<and> innerDisplay mounted_laptop = None \<and> attempt_rotation mounted_laptop = mounted_laptop
   \<and> outerDisplay mounted_laptop = None \<and> sync_outer 10 mounted_laptop = mounted_laptop
   \<and> screen mounted_laptop = None \<and> sync_screen 10 mounted_laptop = mounted_laptop"
proof -
  have h: "innerDisplay mounted_laptop = None" "outerDisplay mounted_laptop = None"
    "screen mounted_laptop = None"
    by (simp_all add: mounted_laptop_def initThree_def created_def)
  have k: "heap mounted_laptop =
      laptop_heap(0 := ambientLight, Suc 0 := directionalLight, Suc (Suc 0) := plane)"
    by (simp add: mounted_laptop_def initThree_def created_def)
  have m: "last_match ''laptop_inner_display'' laptop_model mounted_laptop None = Some 13"
    "last_match ''laptop_outer_display'' laptop_model mounted_laptop None = Some 11"
    "last_match ''laptop_screen'' laptop_model mounted_laptop None = None"
    by (simp_all add: last_match_def named_meshes_def laptop_model_def k laptop_heap_def part_def)
  show ?thesis
    using loader_records_last_match [of laptop_model mounted_laptop 10] h m by simp
qed

subsection \<open>C9: the load succeeds after teardown\<close>

text \<open>
  Claim C9. After a teardown the success callback returns normally, whatever the model:
  the scene is gone, so nothing is added to it, and the frame callback it calls returns at
  its guard, so no frame is requested.
\<close>

theorem load_after_teardown_no_crash:
  "\<exists>s'. onLoad model (onUnmounted s) = Inr s' \<and> renderer s' = None \<and> scene s' = None
        \<and> frameQueue s' = frameQueue (onUnmounted s)"
  by (simp add: onLoad_dead onUnmounted_refs add_model_fields fold_visit_fields)

subsection \<open>C10: the bound that holds from angle 0\<close>

text \<open>
  Claim C10. From angle 0, after any number of frames the angle is greater than
  \<open>(-Math.PI / 2 + 0.05) - 0.005\<close>.
\<close>

theorem rotation_bounded_from_zero:
  assumes "innerDisplay s = Some i" "rotation_x (heap s i) = Fin 0"
  shows "\<exists>a. angle_after n s = Some a \<and> num_gt a (num_sub rotation_floor rotationSpeed)"
proof -
  have wf: "wf_number (rotation_x (heap s i))"
    using assms(2) by (simp add: is_double_def round_double_def)
  have gt: "num_gt (rotation_x (heap s i)) (num_sub rotation_floor rotationSpeed)"
    using assms(2) by (simp add: lower_val)
  show ?thesis
  proof (cases "renderer s")
    case None
    then show ?thesis using assms(1) gt by (simp add: angle_after_dead inner_angle_def)
  next
    case (Some r)
    then have live: "renderer s \<noteq> None" by simp
    show ?thesis
      using funpow_lower [OF wf gt, of n] by (simp add: angle_after_live [OF live assms(1)])
  qed
qed

text \<open>
  The sample component starting at angle 0, after 400 frames.
\<close>

theorem rotation_bounded_from_zero_witness:
  "innerDisplay (laptop_at (Fin 0)) = Some 10 \<and> rotation_x (heap (laptop_at (Fin 0)) 10) = Fin 0
   \<and> (\<exists>a. angle_after 400 (laptop_at (Fin 0)) = Some a
          \<and> num_gt a (num_sub rotation_floor rotationSpeed))"
  using rotation_bounded_from_zero [of "laptop_at (Fin 0)" 10 400] laptop_at_fields(2,3) by blast

end
